theory Spec2Isabelle
  imports Main "HOL-Library.Monad_Syntax"
begin

section \<open>Outcomes of a member function\<close>

text \<open>
  The member functions of \<open>playlistItemStatisticsFile\<close> mutate the object. A run either
  completes (\<open>Ok\<close>, with the object as it is then), leaves the \<open>try\<close> block through
  \<open>throw "..."\<close> (\<open>Throw\<close>, with the message and the object as it is at the throw), or
  dies: \<open>QList::operator[]\<close> out of range and a failed \<open>Q_ASSERT_X\<close> are no C++
  exceptions, no \<open>catch\<close> clause sees them (\<open>Crash\<close>).
\<close>

datatype 'a outcome = Ok 'a | Throw string 'a | Crash

section \<open>Qt containers and strings\<close>

text \<open>\<open>QList::operator[]\<close>: the element, or \<open>None\<close> where the index is out of range.\<close>

definition fld :: "'a list \<Rightarrow> nat \<Rightarrow> 'a option" where
  "fld xs i = (if i < length xs then Some (xs ! i) else None)"

text \<open>
  \<open>QMap\<close>: an association list kept in ascending key order. \<open>qvalue\<close> reads an entry
  (a default-constructed value where the key is absent), \<open>qinsert\<close> writes one.
\<close>

type_synonym ('k, 'v) qmap = "('k \<times> 'v) list"

definition qcontains :: "('k, 'v) qmap \<Rightarrow> 'k \<Rightarrow> bool" where
  "qcontains m k = (case map_of m k of None \<Rightarrow> False | Some v \<Rightarrow> True)"

definition qvalue :: "('k, 'v list) qmap \<Rightarrow> 'k \<Rightarrow> 'v list" where
  "qvalue m k = (case map_of m k of None \<Rightarrow> [] | Some v \<Rightarrow> v)"

fun qinsert :: "int \<Rightarrow> 'v \<Rightarrow> (int, 'v) qmap \<Rightarrow> (int, 'v) qmap" where
  "qinsert k v [] = [(k, v)]"
| "qinsert k v ((k', v') # m) =
     (if k < k' then (k, v) # (k', v') # m
      else if k = k' then (k, v) # m
      else (k', v') # qinsert k v m)"

definition qvalues :: "('k, 'v) qmap \<Rightarrow> 'v list" where
  "qvalues m = map snd m"

text \<open>\<open>QString::trimmed\<close>, \<open>QString::remove(' ')\<close> and \<open>QString::split\<close>.\<close>

definition isSpace :: "char \<Rightarrow> bool" where
  "isSpace c = (c = CHR '' '' \<or> c = CHR 0x09 \<or> c = CHR 0x0A \<or> c = CHR 0x0B
                \<or> c = CHR 0x0C \<or> c = CHR 0x0D)"

definition trimmed :: "string \<Rightarrow> string" where
  "trimmed s = rev (dropWhile isSpace (rev (dropWhile isSpace s)))"

fun qsplit :: "char \<Rightarrow> string \<Rightarrow> string list" where
  "qsplit d [] = [[]]"
| "qsplit d (c # cs) =
     (if c = d then [] # qsplit d cs
      else (case qsplit d cs of [] \<Rightarrow> [[c]] | l # ls \<Rightarrow> (c # l) # ls))"

text \<open>
  \<open>QString::toInt\<close> and \<open>QString::toUInt\<close> (base 10): an optional sign and decimal
  digits, surrounding white space allowed; 0 where the conversion fails or the value
  does not fit the type.
\<close>

definition digit :: "char \<Rightarrow> int option" where
  "digit c = map_of (zip ''0123456789'' [0, 1, 2, 3, 4, 5, 6, 7, 8, 9]) c"

fun digits :: "int \<Rightarrow> string \<Rightarrow> int option" where
  "digits acc [] = Some acc"
| "digits acc (c # cs) =
     (case digit c of None \<Rightarrow> None | Some d \<Rightarrow> digits (10 * acc + d) cs)"

definition unsignedNumber :: "string \<Rightarrow> int option" where
  "unsignedNumber s = (if s = [] then None else digits 0 s)"

definition signedNumber :: "string \<Rightarrow> int option" where
  "signedNumber s =
     (case trimmed s of
        [] \<Rightarrow> None
      | c # cs \<Rightarrow>
          if c = CHR ''-'' then map_option uminus (unsignedNumber cs)
          else if c = CHR ''+'' then unsignedNumber cs
          else unsignedNumber (c # cs))"

definition toInt :: "string \<Rightarrow> int" where
  "toInt s =
     (case signedNumber s of
        None \<Rightarrow> 0
      | Some v \<Rightarrow> if - (2 ^ 31) \<le> v \<and> v \<le> 2 ^ 31 - 1 then v else 0)"

definition toUInt :: "string \<Rightarrow> int" where
  "toUInt s =
     (case signedNumber s of
        None \<Rightarrow> 0
      | Some v \<Rightarrow> if 0 \<le> v \<and> v \<le> 2 ^ 32 - 1 then v else 0)"

text \<open>A value stored into a 32-bit \<open>int\<close>, two's complement.\<close>

definition wrap32 :: "int \<Rightarrow> int" where
  "wrap32 x = (x + 2 ^ 31) mod 2 ^ 32 - 2 ^ 31"

text \<open>
  The lines a text stream hands out from a byte sequence, until it is at its end: each
  line without its terminating newline; a last line needs no newline.
\<close>

fun textLines :: "string \<Rightarrow> string list" where
  "textLines [] = []"
| "textLines (c # cs) =
     (if c = CHR 0x0A then [] # textLines cs
      else (case textLines cs of [] \<Rightarrow> [[c]] | l # ls \<Rightarrow> (c # l) # ls))"

section \<open>The line tokenizer\<close>

definition parseCSVLine :: "string \<Rightarrow> char \<Rightarrow> string list" where
  "parseCSVLine srcLine delimiter =
     qsplit delimiter (filter (\<lambda>c. c \<noteq> CHR '' '') (trimmed srcLine))"

section \<open>The data model\<close>

type_synonym color = "int \<times> int \<times> int \<times> int"

datatype mappingType = mt_gradient | mt_map | mt_complex | mt_none

datatype arrowHead_t = ah_arrow | ah_circle | ah_none

text \<open>
  Modelled from the spec: the class \<open>colorMapper\<close> (statisticsExtensions) is not among the
  sources. The spec describes \<open>mapColor\<close> as a discrete id to RGBA map and
  \<open>range\<close>/\<open>defaultRange\<close> as a numeric range mapped to a gradient.
\<close>

record colorMapper =
  mapperType :: mappingType
  colorMap :: "(int, color) qmap"
  rangeMin :: int
  rangeMax :: int
  minColor :: color
  maxColor :: color
  complexType :: string

definition colorMapper0 :: colorMapper where
  "colorMapper0 = \<lparr> mapperType = mt_none, colorMap = [], rangeMin = 0, rangeMax = 0,
     minColor = (0, 0, 0, 255), maxColor = (0, 0, 0, 255), complexType = [] \<rparr>"

definition colorMapperGradient :: "int \<Rightarrow> color \<Rightarrow> int \<Rightarrow> color \<Rightarrow> colorMapper" where
  "colorMapperGradient mn mnc mx mxc =
     colorMapper0 \<lparr> mapperType := mt_gradient, rangeMin := mn, rangeMax := mx,
       minColor := mnc, maxColor := mxc \<rparr>"

definition colorMapperComplex :: "string \<Rightarrow> int \<Rightarrow> int \<Rightarrow> colorMapper" where
  "colorMapperComplex rangeName mn mx =
     colorMapper0 \<lparr> mapperType := mt_complex, rangeMin := mn, rangeMax := mx,
       complexType := rangeName \<rparr>"

text \<open>
  Modelled from the spec: the class \<open>StatisticsType\<close> (the spec's TypeDescriptor) is not
  among the sources; its fields are the ones the header reader assigns.
\<close>

record StatisticsType =
  statTypeID :: int
  typeName :: string
  hasValueData :: bool
  hasVectorData :: bool
  renderValueData :: bool
  renderVectorData :: bool
  arrowHead :: arrowHead_t
  colMapper :: colorMapper
  vectorPenColor :: color
  gridPenColor :: color
  vectorScale :: int
  scaleValueToBlockSize :: bool

definition StatisticsType0 :: StatisticsType where
  "StatisticsType0 = \<lparr> statTypeID = - 1, typeName = [], hasValueData = False,
     hasVectorData = False, renderValueData = False, renderVectorData = False,
     arrowHead = ah_arrow, colMapper = colorMapper0, vectorPenColor = (0, 0, 0, 255),
     gridPenColor = (0, 0, 0, 255), vectorScale = 1, scaleValueToBlockSize = False \<rparr>"

text \<open>
  Modelled from the spec: the class \<open>statisticsData\<close> is not among the sources. A decoded
  record is a position, a size and one scalar, a 2-component vector or a 4-component
  line, appended to the per-type cache entry.
\<close>

datatype statisticsItem =
    BlockValue int int int int int
  | BlockVector int int int int int int
  | Line int int int int int int int int

type_synonym statisticsData = "statisticsItem list"

definition addBlockValue ::
  "int \<Rightarrow> int \<Rightarrow> int \<Rightarrow> int \<Rightarrow> int \<Rightarrow> statisticsData \<Rightarrow> statisticsData" where
  "addBlockValue x y w h v d = d @ [BlockValue x y w h v]"

definition addBlockVector ::
  "int \<Rightarrow> int \<Rightarrow> int \<Rightarrow> int \<Rightarrow> int \<Rightarrow> int \<Rightarrow> statisticsData \<Rightarrow> statisticsData" where
  "addBlockVector x y w h vx vy d = d @ [BlockVector x y w h vx vy]"

definition addLine ::
  "int \<Rightarrow> int \<Rightarrow> int \<Rightarrow> int \<Rightarrow> int \<Rightarrow> int \<Rightarrow> int \<Rightarrow> int \<Rightarrow> statisticsData \<Rightarrow> statisticsData"
  where
  "addLine x y w h x1 y1 x2 y2 d = d @ [Line x y w h x1 y1 x2 y2]"

text \<open>
  Modelled from the spec: the class \<open>statisticHandler\<close> is not among the sources. It owns
  the registry of declared types, keyed by typeID (the last declaration with an ID wins,
  \<open>getStatisticsType\<close> answers a type or nothing), the cache of the loaded frame, keyed by
  typeID, and the declared frame size.
\<close>

record statisticHandler =
  statsTypeList :: "(int, StatisticsType) qmap"
  statsCache :: "(int, statisticsData) qmap"
  statFrameSize :: "int \<times> int"

definition clearStatTypes :: "statisticHandler \<Rightarrow> statisticHandler" where
  "clearStatTypes h = h \<lparr> statsTypeList := [] \<rparr>"

definition addStatType :: "StatisticsType \<Rightarrow> statisticHandler \<Rightarrow> statisticHandler" where
  "addStatType t h = h \<lparr> statsTypeList := qinsert (statTypeID t) t (statsTypeList h) \<rparr>"

definition getStatisticsType :: "statisticHandler \<Rightarrow> int \<Rightarrow> StatisticsType option" where
  "getStatisticsType h i = map_of (statsTypeList h) i"

text \<open>\<open>statsCache.insert(typeID, statisticsData())\<close>: an entry that is there and empty.\<close>

definition cacheInsertEmpty :: "int \<Rightarrow> statisticHandler \<Rightarrow> statisticHandler" where
  "cacheInsertEmpty t h = h \<lparr> statsCache := qinsert t [] (statsCache h) \<rparr>"

text \<open>
  \<open>statsCache[type].add...(...)\<close>: \<open>operator[]\<close> creates an empty entry where there is
  none, the item is appended to it.
\<close>

definition cacheAdd ::
  "int \<Rightarrow> (statisticsData \<Rightarrow> statisticsData) \<Rightarrow> statisticHandler \<Rightarrow> statisticHandler" where
  "cacheAdd t add h =
     h \<lparr> statsCache := qinsert t (add (qvalue (statsCache h) t)) (statsCache h) \<rparr>"

text \<open>
  The object. \<open>fileBytes\<close> is the content of the opened file, \<open>None\<close> where \<open>file.isOk()\<close>
  is false. \<open>pocTypeStartList\<close> is the position index: POC to typeID to byte offset.
  \<open>frameRate\<close> holds the text of the accepted frame rate, \<open>startEndFrame\<close> the
  published frame range. The signals to the user interface and the progress percentage
  are not part of it.
\<close>

record playlistItemStatisticsFile =
  fileBytes :: "string option"
  fileSortedByPOC :: bool
  blockOutsideOfFrame_idx :: int
  maxPOC :: int
  parsingError :: string
  pocTypeStartList :: "(int, (int, int) qmap) qmap"
  statSource :: statisticHandler
  chartStatSource :: statisticHandler
  frameRate :: string
  startEndFrame :: "int \<times> int"

section \<open>The frame/type data loader\<close>

text \<open>
  Lines 486 to 498 of \<open>loadStatisticToCache\<close>: the offset at which the scan starts. The
  loop over the offsets of one POC starts from the largest \<open>qint64\<close>.
\<close>

definition INT64_MAX :: int where
  "INT64_MAX = 2 ^ 63 - 1"

definition scanStartPos :: "playlistItemStatisticsFile \<Rightarrow> int \<Rightarrow> int \<Rightarrow> int" where
  "scanStartPos st frameIdxInternal typeID =
     (let startPos = (case map_of (qvalue (pocTypeStartList st) frameIdxInternal) typeID of
                        None \<Rightarrow> 0 | Some v \<Rightarrow> v)
      in if fileSortedByPOC st
         then fold (\<lambda>v startPos. if v < startPos then v else startPos)
                (qvalues (qvalue (pocTypeStartList st) frameIdxInternal)) INT64_MAX
         else startPos)"

text \<open>
  Lines 524 to 571: one record that passed the two \<open>break\<close> tests is decoded and added to
  both caches, under its own typeID. \<open>None\<close> is an index out of range or the failed
  assertion that the type is declared.
\<close>

definition cacheRecord ::
  "int \<Rightarrow> string list \<Rightarrow> int \<Rightarrow> playlistItemStatisticsFile \<Rightarrow> playlistItemStatisticsFile option"
  where
  "cacheRecord frameIdxInternal rowItemList type st =
     do {
       f6 \<leftarrow> fld rowItemList 6;
       let values0 = toInt f6;
       values1 \<leftarrow> (if length rowItemList > 7
                    then map_option toInt (fld rowItemList 7) else Some 0);
       let vectorData = (length rowItemList > 7);
       values2 \<leftarrow> (if length rowItemList > 8
                    then map_option toInt (fld rowItemList 8) else Some 0);
       values3 \<leftarrow> (if length rowItemList > 8
                    then map_option toInt (fld rowItemList 9) else Some 0);
       let lineData = (length rowItemList > 8);
       let vectorData = (if length rowItemList > 8 then False else vectorData);
       f1 \<leftarrow> fld rowItemList 1;
       f2 \<leftarrow> fld rowItemList 2;
       f3 \<leftarrow> fld rowItemList 3;
       f4 \<leftarrow> fld rowItemList 4;
       let posX = toInt f1;
       let posY = toInt f2;
       let width = wrap32 (toUInt f3);
       let height = wrap32 (toUInt f4);
       let st = (if blockOutsideOfFrame_idx st = - 1
                    \<and> (wrap32 (posX + width) > fst (statFrameSize (statSource st))
                       \<or> wrap32 (posY + height) > snd (statFrameSize (statSource st)))
                 then st \<lparr> blockOutsideOfFrame_idx := frameIdxInternal \<rparr> else st);
       statsType \<leftarrow> getStatisticsType (statSource st) type;
       let add = (if vectorData \<and> hasVectorData statsType
                  then addBlockVector posX posY width height values0 values1
                  else if lineData \<and> hasVectorData statsType
                  then addLine posX posY width height values0 values1 values2 values3
                  else addBlockValue posX posY width height values0);
       Some (st \<lparr> statSource := cacheAdd type add (statSource st),
                  chartStatSource := cacheAdd type add (chartStatSource st) \<rparr>)
     }"

text \<open>Lines 503 to 572: the loop over the lines from the start offset.\<close>

fun loadLines ::
  "int \<Rightarrow> int \<Rightarrow> string list \<Rightarrow> playlistItemStatisticsFile
     \<Rightarrow> playlistItemStatisticsFile outcome" where
  "loadLines frameIdxInternal typeID [] st = Ok st"
| "loadLines frameIdxInternal typeID (aLine # rest) st =
     (let rowItemList = parseCSVLine aLine (CHR '';'')
      in case fld rowItemList 0 of
           None \<Rightarrow> Crash
         | Some f0 \<Rightarrow>
             if f0 = [] then loadLines frameIdxInternal typeID rest st
             else (case fld rowItemList 5 of
                     None \<Rightarrow> Crash
                   | Some f5 \<Rightarrow>
                       let poc = toInt f0; type = toInt f5
                       in if poc \<noteq> frameIdxInternal then Ok st
                          else if \<not> fileSortedByPOC st \<and> type \<noteq> typeID then Ok st
                          else (case cacheRecord frameIdxInternal rowItemList type st of
                                  None \<Rightarrow> Crash
                                | Some st' \<Rightarrow> loadLines frameIdxInternal typeID rest st')))"

text \<open>
  \<open>loadStatisticToCache\<close>. Nothing in its \<open>try\<close> block throws, so it completes or dies.
\<close>

definition loadStatisticToCache ::
  "int \<Rightarrow> int \<Rightarrow> playlistItemStatisticsFile \<Rightarrow> playlistItemStatisticsFile outcome" where
  "loadStatisticToCache frameIdxInternal typeID st =
     (case fileBytes st of
        None \<Rightarrow> Ok st
      | Some bytes \<Rightarrow>
          if \<not> qcontains (pocTypeStartList st) frameIdxInternal
             \<or> \<not> qcontains (qvalue (pocTypeStartList st) frameIdxInternal) typeID
          then Ok (st \<lparr> statSource := cacheInsertEmpty typeID (statSource st),
                        chartStatSource := cacheInsertEmpty typeID (chartStatSource st) \<rparr>)
          else loadLines frameIdxInternal typeID
                 (textLines (drop (nat (scanStartPos st frameIdxInternal typeID)) bytes)) st)"

section \<open>The header reader\<close>

definition uchar :: "int \<Rightarrow> int" where
  "uchar x = x mod 256"

text \<open>
  Lines 346 to 447 of \<open>readHeaderFromFile\<close>: the chain of tests on \<open>rowItemList[1]\<close>.
  The state is the object, \<open>typeParsingActive\<close> and \<open>aType\<close>; \<open>None\<close> is an index out of
  range. \<open>positiveDouble\<close> stands for the test \<open>toDouble() > 0.0\<close> on a field.
\<close>

definition headerRecord ::
  "(string \<Rightarrow> bool) \<Rightarrow> string list
     \<Rightarrow> playlistItemStatisticsFile \<times> bool \<times> StatisticsType
     \<Rightarrow> (playlistItemStatisticsFile \<times> bool \<times> StatisticsType) option" where
  "headerRecord positiveDouble rowItemList s =
     (case s of (st, typeParsingActive, aType) \<Rightarrow>
        do {
          f1 \<leftarrow> fld rowItemList 1;
          if f1 = ''type'' then
            do {
              f2 \<leftarrow> fld rowItemList 2;
              f3 \<leftarrow> fld rowItemList 3;
              let aType = aType \<lparr> statTypeID := toInt f2, typeName := f3 \<rparr>;
              aType \<leftarrow>
                (if length rowItemList \<ge> 5
                 then do {
                   f4 \<leftarrow> fld rowItemList 4;
                   Some (if f4 = ''map'' \<or> f4 = ''range''
                         then aType \<lparr> hasValueData := True, renderValueData := True \<rparr>
                         else if f4 = ''vector'' \<or> f4 = ''line''
                         then aType \<lparr> hasVectorData := True, renderVectorData := True,
                                arrowHead := (if f4 = ''line'' then ah_none
                                              else arrowHead aType) \<rparr>
                         else aType)
                 }
                 else Some aType);
              Some (st, True, aType)
            }
          else if f1 = ''mapColor'' then
            do {
              f2 \<leftarrow> fld rowItemList 2;
              f3 \<leftarrow> fld rowItemList 3;
              f4 \<leftarrow> fld rowItemList 4;
              f5 \<leftarrow> fld rowItemList 5;
              f6 \<leftarrow> fld rowItemList 6;
              let c = (uchar (toInt f3), uchar (toInt f4), uchar (toInt f5), uchar (toInt f6));
              Some (st, typeParsingActive,
                    aType \<lparr> colMapper := (colMapper aType)
                      \<lparr> mapperType := mt_map,
                        colorMap := qinsert (toInt f2) c (colorMap (colMapper aType)) \<rparr> \<rparr>)
            }
          else if f1 = ''range'' then
            do {
              f2 \<leftarrow> fld rowItemList 2;
              f4 \<leftarrow> fld rowItemList 4;
              f6 \<leftarrow> fld rowItemList 6;
              f8 \<leftarrow> fld rowItemList 8;
              f10 \<leftarrow> fld rowItemList 10;
              f3 \<leftarrow> fld rowItemList 3;
              f5 \<leftarrow> fld rowItemList 5;
              f7 \<leftarrow> fld rowItemList 7;
              f9 \<leftarrow> fld rowItemList 9;
              f11 \<leftarrow> fld rowItemList 11;
              let minColor = (uchar (toInt f4), uchar (toInt f6), uchar (toInt f8),
                              uchar (toInt f10));
              let maxColor = (uchar (toInt f5), uchar (toInt f7), uchar (toInt f9),
                              uchar (toInt f11));
              Some (st, typeParsingActive,
                    aType \<lparr> colMapper :=
                      colorMapperGradient (toInt f2) minColor (toInt f3) maxColor \<rparr>)
            }
          else if f1 = ''defaultRange'' then
            do {
              f2 \<leftarrow> fld rowItemList 2;
              f3 \<leftarrow> fld rowItemList 3;
              f4 \<leftarrow> fld rowItemList 4;
              Some (st, typeParsingActive,
                    aType \<lparr> colMapper := colorMapperComplex f4 (toInt f2) (toInt f3) \<rparr>)
            }
          else if f1 = ''vectorColor'' then
            do {
              f2 \<leftarrow> fld rowItemList 2;
              f3 \<leftarrow> fld rowItemList 3;
              f4 \<leftarrow> fld rowItemList 4;
              f5 \<leftarrow> fld rowItemList 5;
              Some (st, typeParsingActive,
                    aType \<lparr> vectorPenColor :=
                      (uchar (toInt f2), uchar (toInt f3), uchar (toInt f4),
                       uchar (toInt f5)) \<rparr>)
            }
          else if f1 = ''gridColor'' then
            do {
              f2 \<leftarrow> fld rowItemList 2;
              f3 \<leftarrow> fld rowItemList 3;
              f4 \<leftarrow> fld rowItemList 4;
              Some (st, typeParsingActive,
                    aType \<lparr> gridPenColor :=
                      (uchar (toInt f2), uchar (toInt f3), uchar (toInt f4), 255) \<rparr>)
            }
          else if f1 = ''scaleFactor'' then
            do {
              f2 \<leftarrow> fld rowItemList 2;
              Some (st, typeParsingActive, aType \<lparr> vectorScale := toInt f2 \<rparr>)
            }
          else if f1 = ''scaleToBlockSize'' then
            do {
              f2 \<leftarrow> fld rowItemList 2;
              Some (st, typeParsingActive, aType \<lparr> scaleValueToBlockSize := (f2 = ''1'') \<rparr>)
            }
          else if f1 = ''seq-specs'' then
            do {
              f2 \<leftarrow> fld rowItemList 2;
              f3 \<leftarrow> fld rowItemList 3;
              f4 \<leftarrow> fld rowItemList 4;
              f5 \<leftarrow> fld rowItemList 5;
              let width = toInt f4;
              let height = toInt f5;
              let st = (if width > 0 \<and> height > 0
                        then st \<lparr> statSource := (statSource st)
                               \<lparr> statFrameSize := (width, height) \<rparr> \<rparr>
                        else st);
              f6 \<leftarrow> fld rowItemList 6;
              Some (if positiveDouble f6 then st \<lparr> frameRate := f6 \<rparr> else st,
                    typeParsingActive, aType)
            }
          else Some (st, typeParsingActive, aType)
        })"

text \<open>
  Lines 318 to 448: the loop over the lines of the file. \<open>setInitialState\<close> keeps a copy
  of the type for a later reset and is not modelled.
\<close>

fun headerLines ::
  "(string \<Rightarrow> bool) \<Rightarrow> string list
     \<Rightarrow> playlistItemStatisticsFile \<times> bool \<times> StatisticsType
     \<Rightarrow> playlistItemStatisticsFile outcome" where
  "headerLines positiveDouble [] (st, typeParsingActive, aType) = Ok st"
| "headerLines positiveDouble (aLine # rest) (st, typeParsingActive, aType) =
     (let rowItemList = parseCSVLine aLine (CHR '';'')
      in case fld rowItemList 0 of
           None \<Rightarrow> Crash
         | Some f0 \<Rightarrow>
             if f0 = [] then headerLines positiveDouble rest (st, typeParsingActive, aType)
             else (case fld rowItemList 1 of
                     None \<Rightarrow> Crash
                   | Some f1 \<Rightarrow>
                       let finish = ((f1 = ''type'' \<or> hd f0 \<noteq> CHR ''%'')
                                       \<and> typeParsingActive);
                           s1 = (if finish
                                 then (st \<lparr> statSource := addStatType aType (statSource st) \<rparr>,
                                       False, StatisticsType0)
                                 else (st, typeParsingActive, aType))
                       in if finish \<and> hd f0 \<noteq> CHR ''%'' then Ok (fst s1)
                          else (case headerRecord positiveDouble rowItemList s1 of
                                  None \<Rightarrow> Crash
                                | Some s2 \<Rightarrow> headerLines positiveDouble rest s2)))"

text \<open>
  \<open>readHeaderFromFile\<close>. Nothing in its \<open>try\<close> block throws, so \<open>parsingError\<close> is never
  set here.
\<close>

definition readHeaderFromFile ::
  "(string \<Rightarrow> bool) \<Rightarrow> playlistItemStatisticsFile \<Rightarrow> playlistItemStatisticsFile outcome"
  where
  "readHeaderFromFile positiveDouble st =
     (case fileBytes st of
        None \<Rightarrow> Ok st
      | Some bytes \<Rightarrow>
          headerLines positiveDouble (textLines bytes)
            (st \<lparr> statSource := clearStatTypes (statSource st) \<rparr>, False, StatisticsType0))"

section \<open>The position indexer\<close>

text \<open>
  Modelled from the spec: the macro \<open>INT_INVALID\<close> (typedef.h) is not among the sources.
  The first data line is the one that finds \<open>lastPOC\<close> and \<open>lastType\<close> as they were
  initialised, and the code tests both against \<open>-1\<close>.
\<close>

definition INT_INVALID :: int where
  "INT_INVALID = - 1"

definition STAT_PARSING_BUFFER_SIZE :: nat where
  "STAT_PARSING_BUFFER_SIZE = 1048576"

text \<open>The local variables of \<open>readFrameAndTypePositionsFromFile\<close>.\<close>

record scanLocals =
  fileAtEnd :: bool
  bufferStartPos :: int
  lineBuffer :: string
  lineBufferStartPos :: int
  lastPOC :: int
  lastType :: int
  sortingFixed :: bool

definition scanLocals0 :: scanLocals where
  "scanLocals0 = \<lparr> fileAtEnd = False, bufferStartPos = 0, lineBuffer = [],
     lineBufferStartPos = 0, lastPOC = INT_INVALID, lastType = INT_INVALID,
     sortingFixed = False \<rparr>"

type_synonym positionIndex = "(int, (int, int) qmap) qmap"

text \<open>
  \<open>pocTypeStartList[poc]\<close> on the non-const map creates an empty entry for a POC that
  has none; \<open>pocTypeStartList[poc][typeID] = pos\<close> writes through it.
\<close>

definition touchPOC :: "int \<Rightarrow> positionIndex \<Rightarrow> positionIndex" where
  "touchPOC poc m = (if qcontains m poc then m else qinsert poc [] m)"

definition setStart :: "int \<Rightarrow> int \<Rightarrow> int \<Rightarrow> positionIndex \<Rightarrow> positionIndex" where
  "setStart poc typeID pos m = qinsert poc (qinsert typeID pos (qvalue m poc)) m"

text \<open>
  Lines 185 to 257: one data line with its POC and typeID. \<open>lineBufferStartPos\<close> is the
  offset of the line.
\<close>

definition indexRecord ::
  "int \<Rightarrow> int \<Rightarrow> playlistItemStatisticsFile \<times> scanLocals
     \<Rightarrow> (playlistItemStatisticsFile \<times> scanLocals) outcome" where
  "indexRecord poc typeID s =
     (case s of (st, loc) \<Rightarrow>
        if lastType loc = - 1 \<and> lastPOC loc = - 1 then
          Ok (st \<lparr> pocTypeStartList :=
                     setStart poc typeID (lineBufferStartPos loc) (pocTypeStartList st),
                   maxPOC := (if poc > maxPOC st then poc else maxPOC st) \<rparr>,
              loc \<lparr> lastType := typeID, lastPOC := poc \<rparr>)
        else if typeID \<noteq> lastType loc \<and> poc = lastPOC loc then
          (let st1 = (if \<not> sortingFixed loc then st \<lparr> fileSortedByPOC := True \<rparr> else st);
               loc1 = (if \<not> sortingFixed loc then loc \<lparr> sortingFixed := True \<rparr> else loc);
               idx = touchPOC poc (pocTypeStartList st1)
           in Ok (st1 \<lparr> pocTypeStartList :=
                          (if \<not> qcontains (qvalue idx poc) typeID
                           then setStart poc typeID (lineBufferStartPos loc) idx
                           else idx) \<rparr>,
                  loc1 \<lparr> lastType := typeID \<rparr>))
        else if poc \<noteq> lastPOC loc then
          (let loc1 = (if \<not> sortingFixed loc then loc \<lparr> sortingFixed := True \<rparr> else loc);
               thrown =
                 (if fileSortedByPOC st
                  then (if qcontains (pocTypeStartList st) poc
                        then Some ''The data for each POC must be continuous in an interleaved statistics file->''
                        else None)
                  else (if qcontains (pocTypeStartList st) poc
                           \<and> qcontains (qvalue (pocTypeStartList st) poc) typeID
                        then Some ''The data for each typeID must be continuous in an non interleaved statistics file->''
                        else None))
           in case thrown of
                Some str \<Rightarrow> Throw str (st, loc1)
              | None \<Rightarrow>
                  Ok (st \<lparr> pocTypeStartList :=
                             setStart poc typeID (lineBufferStartPos loc) (pocTypeStartList st),
                           maxPOC := (if poc > maxPOC st then poc else maxPOC st) \<rparr>,
                      loc1 \<lparr> lastPOC := poc, lastType := typeID \<rparr>))
        else Ok (st, loc))"

text \<open>Lines 176 to 258: a completed, non-empty line buffer.\<close>

definition processLine ::
  "playlistItemStatisticsFile \<times> scanLocals
     \<Rightarrow> (playlistItemStatisticsFile \<times> scanLocals) outcome" where
  "processLine s =
     (let rowItemList = parseCSVLine (lineBuffer (snd s)) (CHR '';'')
      in case fld rowItemList 0 of
           None \<Rightarrow> Crash
         | Some f0 \<Rightarrow>
             if f0 \<noteq> [] \<and> hd f0 \<noteq> CHR ''%''
             then (case fld rowItemList 5 of
                     None \<Rightarrow> Crash
                   | Some f5 \<Rightarrow> indexRecord (toInt f0) (toInt f5) s)
             else Ok s)"

text \<open>
  Lines 166 to 267: the loop over the bytes of the input buffer, from index \<open>i\<close> on.
\<close>

fun scanBuffer ::
  "nat \<Rightarrow> string \<Rightarrow> playlistItemStatisticsFile \<times> scanLocals
     \<Rightarrow> (playlistItemStatisticsFile \<times> scanLocals) outcome" where
  "scanBuffer i [] s = Ok s"
| "scanBuffer i (c # cs) s =
     (if c = CHR 0x0A
      then (case (if lineBuffer (snd s) \<noteq> [] then processLine s else Ok s) of
              Ok s' \<Rightarrow>
                scanBuffer (Suc i) cs
                  (fst s', (snd s') \<lparr> lineBuffer := [],
                     lineBufferStartPos := bufferStartPos (snd s') + int i + 1 \<rparr>)
            | Throw str s' \<Rightarrow> Throw str s'
            | Crash \<Rightarrow> Crash)
      else scanBuffer (Suc i) cs
             (fst s, (snd s) \<lparr> lineBuffer := lineBuffer (snd s) @ [c] \<rparr>))"

text \<open>\<open>readBytes\<close>: up to \<open>n\<close> bytes of the file from position \<open>pos\<close>.\<close>

definition readBytes :: "string \<Rightarrow> int \<Rightarrow> nat \<Rightarrow> string" where
  "readBytes bytes pos n = take n (drop (nat pos) bytes)"

text \<open>
  Lines 159 to 269: one run of the body of the outer loop, with a buffer of \<open>bufSize\<close>
  bytes.
\<close>

definition scanChunk ::
  "nat \<Rightarrow> string \<Rightarrow> playlistItemStatisticsFile \<times> scanLocals
     \<Rightarrow> (playlistItemStatisticsFile \<times> scanLocals) outcome" where
  "scanChunk bufSize bytes s =
     (let inputBuffer = readBytes bytes (bufferStartPos (snd s)) bufSize;
          bufferSize = length inputBuffer;
          s1 = (if bufferSize < bufSize then (fst s, (snd s) \<lparr> fileAtEnd := True \<rparr>) else s)
      in case scanBuffer 0 inputBuffer s1 of
           Ok s2 \<Rightarrow>
             Ok (fst s2, (snd s2) \<lparr> bufferStartPos := bufferStartPos (snd s2) + int bufferSize \<rparr>)
         | Throw str s2 \<Rightarrow> Throw str s2
         | Crash \<Rightarrow> Crash)"

text \<open>
  Lines 157 to 270: the outer loop. \<open>cancel k\<close> is what the test of the loop reads from
  \<open>cancelBackgroundParser\<close> after \<open>k\<close> chunks. With a buffer of no bytes the loop would
  not end: the result is an option, \<open>None\<close> for a loop that does not return.
\<close>

partial_function (option) scanChunks ::
  "nat \<Rightarrow> (nat \<Rightarrow> bool) \<Rightarrow> string \<Rightarrow> nat \<Rightarrow> playlistItemStatisticsFile \<times> scanLocals
     \<Rightarrow> (playlistItemStatisticsFile \<times> scanLocals) outcome option" where
  "scanChunks bufSize cancel bytes k s =
     (if \<not> fileAtEnd (snd s) \<and> \<not> cancel k
      then (case scanChunk bufSize bytes s of
              Ok s' \<Rightarrow> scanChunks bufSize cancel bytes (Suc k) s'
            | Throw str s' \<Rightarrow> Some (Throw str s')
            | Crash \<Rightarrow> Some Crash)
      else Some (Ok s))"

declare scanChunks.simps [code]

text \<open>
  \<open>readFrameAndTypePositionsFromFile\<close>. \<open>inputFile\<close> is the content of the file opened
  again for the scan, \<open>None\<close> where that fails. A thrown message ends the scan and is
  kept in \<open>parsingError\<close>.
\<close>

definition readFrameAndTypePositionsFromFile ::
  "nat \<Rightarrow> (nat \<Rightarrow> bool) \<Rightarrow> string option \<Rightarrow> playlistItemStatisticsFile
     \<Rightarrow> playlistItemStatisticsFile outcome option" where
  "readFrameAndTypePositionsFromFile bufSize cancel inputFile st =
     (case inputFile of
        None \<Rightarrow> Some (Ok st)
      | Some bytes \<Rightarrow>
          (case scanChunks bufSize cancel bytes 0 (st, scanLocals0) of
             None \<Rightarrow> None
           | Some (Ok s) \<Rightarrow>
               Some (Ok ((fst s) \<lparr> startEndFrame := (0, maxPOC (fst s)),
                                  chartStatSource := statSource (fst s) \<rparr>))
           | Some (Throw str s) \<Rightarrow>
               Some (Ok ((fst s) \<lparr> parsingError :=
                                    ''Error while parsing meta data: '' @ str \<rparr>))
           | Some Crash \<Rightarrow> Some Crash))"

section \<open>Reading the state\<close>

text \<open>The offset the index records for a POC and a typeID, if it records one.\<close>

definition indexedOffset :: "positionIndex \<Rightarrow> int \<Rightarrow> int \<Rightarrow> int option" where
  "indexedOffset idx poc typeID =
     (case map_of idx poc of None \<Rightarrow> None | Some types \<Rightarrow> map_of types typeID)"

text \<open>
  What the loader is to leave in the caches. \<open>decodedItem\<close> is the item made of one
  record, for a type that declares vector data or not; \<open>outsideFrame\<close> is the test of
  the block against the frame size. A line of a POC block has an empty first field or
  is a record of the POC with 7, 8 or at least 10 fields and a declared type; the block
  ends at a record, of at least 6 fields, with another POC. \<open>cachedBlock\<close> is the cache
  after the rows of a block: under each typeID the items of the rows with that typeID,
  in their order, after what the entry held; \<open>recordCached\<close> and \<open>cacheStep\<close> are the
  object and one cache after one row.
\<close>

definition decodedItem :: "bool \<Rightarrow> string list \<Rightarrow> statisticsItem" where
  "decodedItem vectors row =
     (let posX = toInt (row ! 1); posY = toInt (row ! 2);
          width = wrap32 (toUInt (row ! 3)); height = wrap32 (toUInt (row ! 4))
      in if vectors \<and> length row = 8
         then BlockVector posX posY width height (toInt (row ! 6)) (toInt (row ! 7))
         else if vectors \<and> 9 < length row
         then Line posX posY width height (toInt (row ! 6)) (toInt (row ! 7))
                (toInt (row ! 8)) (toInt (row ! 9))
         else BlockValue posX posY width height (toInt (row ! 6)))"

definition outsideFrame :: "int \<times> int \<Rightarrow> string list \<Rightarrow> bool" where
  "outsideFrame frameSize row \<longleftrightarrow>
     wrap32 (toInt (row ! 1) + wrap32 (toUInt (row ! 3))) > fst frameSize
     \<or> wrap32 (toInt (row ! 2) + wrap32 (toUInt (row ! 4))) > snd frameSize"

definition emptyFirstField :: "string \<Rightarrow> bool" where
  "emptyFirstField l \<longleftrightarrow> parseCSVLine l (CHR '';'') ! 0 = []"

definition blockRecord :: "statisticHandler \<Rightarrow> int \<Rightarrow> string \<Rightarrow> bool" where
  "blockRecord h frameIdx l \<longleftrightarrow>
     (let row = parseCSVLine l (CHR '';'')
      in row ! 0 \<noteq> [] \<and> toInt (row ! 0) = frameIdx \<and> 6 < length row \<and> length row \<noteq> 9
         \<and> getStatisticsType h (toInt (row ! 5)) \<noteq> None)"

definition blockEnd :: "int \<Rightarrow> string \<Rightarrow> bool" where
  "blockEnd frameIdx l \<longleftrightarrow>
     (let row = parseCSVLine l (CHR '';'')
      in row ! 0 \<noteq> [] \<and> 5 < length row \<and> toInt (row ! 0) \<noteq> frameIdx)"

definition blockRows :: "string list \<Rightarrow> string list list" where
  "blockRows ls = filter (\<lambda>row. row ! 0 \<noteq> []) (map (\<lambda>l. parseCSVLine l (CHR '';'')) ls)"

definition typeItems :: "statisticHandler \<Rightarrow> string list list \<Rightarrow> int \<Rightarrow> statisticsItem list" where
  "typeItems h rows t =
     map (decodedItem (case getStatisticsType h t of None \<Rightarrow> False
                       | Some statsType \<Rightarrow> hasVectorData statsType))
       (filter (\<lambda>row. toInt (row ! 5) = t) rows)"

definition cachedBlock ::
  "statisticHandler \<Rightarrow> string list list \<Rightarrow> (int, statisticsData) qmap
     \<Rightarrow> int \<Rightarrow> statisticsData option" where
  "cachedBlock h rows cache t =
     (if typeItems h rows t = [] then map_of cache t
      else Some (qvalue cache t @ typeItems h rows t))"

definition recordCached ::
  "statisticHandler \<Rightarrow> int \<Rightarrow> string list \<Rightarrow> playlistItemStatisticsFile
     \<Rightarrow> playlistItemStatisticsFile" where
  "recordCached h frameIdx row st =
     st \<lparr> blockOutsideOfFrame_idx :=
            (if blockOutsideOfFrame_idx st = - 1 \<and> outsideFrame (statFrameSize h) row
             then frameIdx else blockOutsideOfFrame_idx st),
          statSource := cacheAdd (toInt (row ! 5))
            (\<lambda>d. d @ [decodedItem (case getStatisticsType h (toInt (row ! 5)) of None \<Rightarrow> False
                       | Some statsType \<Rightarrow> hasVectorData statsType) row]) (statSource st),
          chartStatSource := cacheAdd (toInt (row ! 5))
            (\<lambda>d. d @ [decodedItem (case getStatisticsType h (toInt (row ! 5)) of None \<Rightarrow> False
                       | Some statsType \<Rightarrow> hasVectorData statsType) row]) (chartStatSource st) \<rparr>"

definition cacheStep ::
  "statisticHandler \<Rightarrow> string list \<Rightarrow> (int, statisticsData) qmap \<Rightarrow> (int, statisticsData) qmap"
  where
  "cacheStep h row c =
     qinsert (toInt (row ! 5))
       (qvalue c (toInt (row ! 5))
          @ [decodedItem (case getStatisticsType h (toInt (row ! 5)) of None \<Rightarrow> False
                          | Some statsType \<Rightarrow> hasVectorData statsType) row]) c"

text \<open>
  The layout mode of the spec, read from the two flags of the scan: undecided as long as
  \<open>sortingFixed\<close> is not set, then what \<open>fileSortedByPOC\<close> says.
\<close>

datatype LayoutMode = Unknown | Sequential | Interleaved

definition layoutMode :: "playlistItemStatisticsFile \<times> scanLocals \<Rightarrow> LayoutMode" where
  "layoutMode s =
     (if \<not> sortingFixed (snd s) then Unknown
      else if fileSortedByPOC (fst s) then Interleaved else Sequential)"

text \<open>
  The two flags of the layout between a state of the scan and a later one: once
  \<open>sortingFixed\<close> is set, it stays set and \<open>fileSortedByPOC\<close> is what it was; as long as
  \<open>sortingFixed\<close> is not set, a \<open>fileSortedByPOC\<close> that was not set stays so.
\<close>

definition modeKept ::
  "playlistItemStatisticsFile \<times> scanLocals \<Rightarrow> playlistItemStatisticsFile \<times> scanLocals \<Rightarrow> bool"
  where
  "modeKept s s' \<longleftrightarrow>
     (sortingFixed (snd s) \<longrightarrow>
        sortingFixed (snd s') \<and> fileSortedByPOC (fst s') = fileSortedByPOC (fst s))
     \<and> (\<not> sortingFixed (snd s) \<and> \<not> fileSortedByPOC (fst s) \<and> \<not> sortingFixed (snd s') \<longrightarrow>
          \<not> fileSortedByPOC (fst s'))"

text \<open>
  Two states of the scan that differ at most in \<open>bufferStartPos\<close> and \<open>fileAtEnd\<close>,
  the two variables that speak of the buffer and not of the lines read.
\<close>

definition sameScan ::
  "playlistItemStatisticsFile \<times> scanLocals \<Rightarrow> playlistItemStatisticsFile \<times> scanLocals \<Rightarrow> bool" where
  "sameScan s s' \<longleftrightarrow>
     fst s = fst s' \<and> lineBuffer (snd s) = lineBuffer (snd s')
     \<and> lineBufferStartPos (snd s) = lineBufferStartPos (snd s')
     \<and> lastPOC (snd s) = lastPOC (snd s') \<and> lastType (snd s) = lastType (snd s')
     \<and> sortingFixed (snd s) = sortingFixed (snd s')"

text \<open>
  A file given by its lines, each ended by a newline; the POC and typeID the indexer
  reads from a line, and the lines it takes for data lines (no newline inside, at least
  six fields, a first field that is not empty and does not start a header record).
\<close>

definition fileOfLines :: "string list \<Rightarrow> string" where
  "fileOfLines ls = concat (map (\<lambda>l. l @ [CHR 0x0A]) ls)"

definition recordOf :: "string \<Rightarrow> int \<times> int" where
  "recordOf l = (let rowItemList = parseCSVLine l (CHR '';'')
                 in (toInt (rowItemList ! 0), toInt (rowItemList ! 5)))"

definition dataLine :: "string \<Rightarrow> bool" where
  "dataLine l \<longleftrightarrow>
     CHR 0x0A \<notin> set l
     \<and> (let rowItemList = parseCSVLine l (CHR '';'')
        in 5 < length rowItemList \<and> rowItemList ! 0 \<noteq> [] \<and> hd (rowItemList ! 0) \<noteq> CHR ''%'')"

text \<open>
  A line that the indexer passes over: an empty line, or a line whose first field is
  empty or starts a header record. \<open>dataRecords b ls\<close> are the POC and typeID of the
  data lines among \<open>ls\<close>, each with the offset of its line in a file that has the lines
  \<open>ls\<close>, from offset \<open>b\<close> on, each ended by a newline.
\<close>

definition skippedLine :: "string \<Rightarrow> bool" where
  "skippedLine l \<longleftrightarrow>
     CHR 0x0A \<notin> set l
     \<and> (l = [] \<or> (let f0 = parseCSVLine l (CHR '';'') ! 0 in f0 = [] \<or> hd f0 = CHR ''%''))"

fun dataRecords :: "int \<Rightarrow> string list \<Rightarrow> ((int \<times> int) \<times> int) list" where
  "dataRecords b [] = []"
| "dataRecords b (l # ls) =
     (if dataLine l then [(recordOf l, b)] else []) @ dataRecords (b + int (length l) + 1) ls"

text \<open>
  The first record of the body that differs from the first one differs from it in its
  POC (or no record differs from the first one).
\<close>

definition pocChangesFirst :: "(int \<times> int) list \<Rightarrow> bool" where
  "pocChangesFirst rs =
     (case dropWhile (\<lambda>r. r = hd rs) rs of [] \<Rightarrow> True | r # _ \<Rightarrow> fst r \<noteq> fst (hd rs))"

text \<open>
  What holds after the records \<open>rs\<close>, found at the offsets \<open>offs\<close>, have been indexed.
\<close>

definition scanInv ::
  "(int \<times> int) list \<Rightarrow> int list \<Rightarrow> playlistItemStatisticsFile \<times> scanLocals \<Rightarrow> bool" where
  "scanInv rs offs s \<longleftrightarrow>
     (if rs = [] then lastPOC (snd s) = - 1 \<and> lastType (snd s) = - 1
      else (lastPOC (snd s), lastType (snd s)) = last rs)
     \<and> (\<forall>p t. indexedOffset (pocTypeStartList (fst s)) p t = map_of (zip rs offs) (p, t))
     \<and> (\<forall>p. qcontains (pocTypeStartList (fst s)) p \<longleftrightarrow> p \<in> fst ` set rs)
     \<and> (sortingFixed (snd s) \<longleftrightarrow> (\<exists>r \<in> set rs. r \<noteq> hd rs))
     \<and> (fileSortedByPOC (fst s) \<longleftrightarrow> \<not> pocChangesFirst rs)"

section \<open>A small statistics file\<close>

text \<open>
  Two declared types, 1 with values only and 2 with vectors, and a body of three data
  lines at the offsets 0, 16 and 32, with the index of an interleaved scan over it.
\<close>

definition valueType1 :: StatisticsType where
  "valueType1 = StatisticsType0 \<lparr> statTypeID := 1, typeName := ''a'',
     hasValueData := True, renderValueData := True \<rparr>"

definition vectorType2 :: StatisticsType where
  "vectorType2 = StatisticsType0 \<lparr> statTypeID := 2, typeName := ''b'',
     hasVectorData := True, renderVectorData := True \<rparr>"

definition exampleHandler :: statisticHandler where
  "exampleHandler = \<lparr> statsTypeList = [(1, valueType1), (2, vectorType2)],
     statsCache = [], statFrameSize = (64, 64) \<rparr>"

definition exampleBody :: string where
  "exampleBody = ''0;0;0;8;8;1;5;3'' @ [CHR 0x0A] @ ''0;8;0;8;8;2;7;1'' @ [CHR 0x0A]
     @ ''1;0;0;8;8;1;9'' @ [CHR 0x0A]"

definition exampleItem :: playlistItemStatisticsFile where
  "exampleItem = \<lparr> fileBytes = Some exampleBody, fileSortedByPOC = True,
     blockOutsideOfFrame_idx = - 1, maxPOC = 1, parsingError = [],
     pocTypeStartList = [(0, [(1, 0), (2, 16)]), (1, [(1, 32)])],
     statSource = exampleHandler, chartStatSource = exampleHandler, frameRate = [],
     startEndFrame = (0, 1) \<rparr>"

text \<open>
  The same object before the scan, the local variables after a scan of the whole body,
  two ways of reading the cancel flag, a header with a \<open>range\<close> record of four fields,
  three more bodies (one with a header line and an empty line in front), and the state
  of the scan after the first line of the first body.
\<close>

definition neverCancel :: "nat \<Rightarrow> bool" where
  "neverCancel k = False"

definition cancelAfterTwo :: "nat \<Rightarrow> bool" where
  "cancelAfterTwo k = (k = 2)"

definition freshItem :: playlistItemStatisticsFile where
  "freshItem = exampleItem \<lparr> fileSortedByPOC := False, maxPOC := 0, pocTypeStartList := [],
     startEndFrame := (0, 0) \<rparr>"

definition exampleLocals :: scanLocals where
  "exampleLocals = \<lparr> fileAtEnd = False, bufferStartPos = 0, lineBuffer = [],
     lineBufferStartPos = 46, lastPOC = 1, lastType = 1, sortingFixed = True \<rparr>"

definition truncatedRangeHeader :: string where
  "truncatedRangeHeader = ''%;type;1;a;range'' @ [CHR 0x0A] @ ''%;range;0;1'' @ [CHR 0x0A]"

definition headedLines :: "string list" where
  "headedLines = [''%;type;1;a;range'', '''', ''0;0;0;8;8;1;5'', ''1;0;0;8;8;1;9'',
     ''0;8;0;8;8;2;7'']"

definition unrepeatedLines :: "string list" where
  "unrepeatedLines = [''0;0;0;8;8;1;5'', ''1;0;0;8;8;2;7'', ''1;8;0;8;8;3;9'']"

definition firstLineRead :: "playlistItemStatisticsFile \<times> scanLocals" where
  "firstLineRead = (freshItem \<lparr> pocTypeStartList := [(0, [(1, 0)])] \<rparr>,
     scanLocals0 \<lparr> lineBufferStartPos := 16, lastPOC := 0, lastType := 1 \<rparr>)"

definition twoTypeLines :: "string list" where
  "twoTypeLines = [''0;0;0;8;8;1;5'', ''0;8;0;8;8;2;7'']"

section \<open>Properties of the containers\<close>

lemma qsplit_nonempty: "qsplit d s \<noteq> []"
  by (cases s) (simp_all split: list.splits)

lemma parseCSVLine_nonempty: "parseCSVLine l d \<noteq> []"
  by (simp add: parseCSVLine_def qsplit_nonempty)

lemma fld_first: "fld (parseCSVLine l d) 0 = Some (parseCSVLine l d ! 0)"
  using parseCSVLine_nonempty [of l d] by (simp add: fld_def)

lemma map_of_qinsert: "map_of (qinsert k v m) = (map_of m)(k \<mapsto> v)"
  by (induction m) (auto simp: fun_eq_iff)

lemma cacheAdd_lookup:
  "map_of (statsCache (cacheAdd t add h)) =
     (map_of (statsCache h))(t \<mapsto> add (qvalue (statsCache h) t))"
  by (simp add: cacheAdd_def map_of_qinsert)

lemma indexedOffset_absent:
  "indexedOffset idx poc typeID = None \<longleftrightarrow>
     (\<not> qcontains idx poc \<or> \<not> qcontains (qvalue idx poc) typeID)"
  by (auto simp: indexedOffset_def qcontains_def qvalue_def split: option.splits)

lemma indexedOffset_values:
  assumes "distinct (map fst (qvalue idx poc))"
  shows "{v. \<exists>t. indexedOffset idx poc t = Some v} = set (qvalues (qvalue idx poc))"
proof -
  have "{v. \<exists>t. indexedOffset idx poc t = Some v} = ran (map_of (qvalue idx poc))"
    by (auto simp: indexedOffset_def qvalue_def ran_def split: option.splits)
  also have "\<dots> = snd ` set (qvalue idx poc)"
    using assms by (rule ran_distinct)
  finally show ?thesis by (simp add: qvalues_def)
qed

lemma fold_min_offsets:
  "fold (\<lambda>v startPos. if v < startPos then v else startPos) vs (a::int)
     = Min (insert a (set vs))"
proof (induction vs arbitrary: a)
  case Nil
  then show ?case by simp
next
  case (Cons v vs)
  have "(if v < a then v else a) = min v a" by (simp add: min_def)
  moreover have "Min (insert (min v a) (set vs)) = Min (insert a (insert v (set vs)))"
  proof (cases "set vs = {}")
    case True
    then show ?thesis by (simp add: min.commute)
  next
    case False
    then show ?thesis by (simp add: Min_insert min.commute min.left_commute)
  qed
  ultimately have "Min (insert (if v < a then v else a) (set vs))
                     = Min (insert a (insert v (set vs)))"
    by simp
  with Cons show ?case by simp
qed

section \<open>The loader: where the scan starts\<close>

text \<open>
  C4. A call of the loader on an open file, for a frame and a typeID that have an index
  entry, scans the lines from the start offset on: in an interleaved file
  (\<open>fileSortedByPOC\<close>) the start offset is the least of the offsets recorded for the
  typeIDs of that POC, otherwise it is the offset recorded for the frame and the typeID.
  The index is a \<open>QMap\<close> (one entry per key) of \<open>qint64\<close> offsets.
\<close>

theorem scan_start_offset:
  assumes "fileBytes st = Some bytes"
    and "indexedOffset (pocTypeStartList st) frameIdx typeID = Some off"
    and "distinct (map fst (qvalue (pocTypeStartList st) frameIdx))"
    and "\<forall>v \<in> set (qvalues (qvalue (pocTypeStartList st) frameIdx)). v \<le> INT64_MAX"
  shows "scanStartPos st frameIdx typeID =
           (if fileSortedByPOC st
            then Min {v. \<exists>t. indexedOffset (pocTypeStartList st) frameIdx t = Some v}
            else off)
         \<and> loadStatisticToCache frameIdx typeID st =
             loadLines frameIdx typeID
               (textLines (drop (nat (scanStartPos st frameIdx typeID)) bytes)) st"
proof
  let ?types = "qvalue (pocTypeStartList st) frameIdx"
  from assms(2) have off: "map_of ?types typeID = Some off"
    by (auto simp: indexedOffset_def qvalue_def split: option.splits)
  then have "off \<in> set (qvalues ?types)"
    by (force simp: qvalues_def dest: map_of_SomeD)
  then have ne: "set (qvalues ?types) \<noteq> {}" by auto
  have "Min (set (qvalues ?types)) \<in> set (qvalues ?types)"
    using ne by (intro Min_in) simp_all
  with assms(4) have "Min (set (qvalues ?types)) \<le> INT64_MAX" by blast
  then have "min INT64_MAX (Min (set (qvalues ?types))) = Min (set (qvalues ?types))"
    by (rule min_absorb2)
  moreover have "Min (insert INT64_MAX (set (qvalues ?types)))
                   = min INT64_MAX (Min (set (qvalues ?types)))"
    using ne by (intro Min_insert) simp_all
  ultimately have "Min (insert INT64_MAX (set (qvalues ?types))) = Min (set (qvalues ?types))"
    by simp
  then show "scanStartPos st frameIdx typeID =
           (if fileSortedByPOC st
            then Min {v. \<exists>t. indexedOffset (pocTypeStartList st) frameIdx t = Some v}
            else off)"
    using off by (simp add: scanStartPos_def fold_min_offsets indexedOffset_values [OF assms(3)])
  from assms(2) have "indexedOffset (pocTypeStartList st) frameIdx typeID \<noteq> None" by simp
  then have "qcontains (pocTypeStartList st) frameIdx \<and> qcontains ?types typeID"
    by (simp add: indexedOffset_absent)
  then show "loadStatisticToCache frameIdx typeID st =
             loadLines frameIdx typeID
               (textLines (drop (nat (scanStartPos st frameIdx typeID)) bytes)) st"
    using assms(1) by (simp add: loadStatisticToCache_def)
qed

theorem scan_start_offset_witness:
  "scanStartPos exampleItem 0 2 = 0
   \<and> Min {v. \<exists>t. indexedOffset (pocTypeStartList exampleItem) 0 t = Some v} = 0
   \<and> loadStatisticToCache 0 2 exampleItem =
       loadLines 0 2 (textLines exampleBody) exampleItem"
proof -
  have h1: "fileBytes exampleItem = Some exampleBody"
    by (simp add: exampleItem_def)
  have h2: "indexedOffset (pocTypeStartList exampleItem) 0 2 = Some 16"
    by code_simp
  have h3: "distinct (map fst (qvalue (pocTypeStartList exampleItem) 0))"
    by code_simp
  have h4: "\<forall>v \<in> set (qvalues (qvalue (pocTypeStartList exampleItem) 0)). v \<le> INT64_MAX"
    by code_simp
  have e: "scanStartPos exampleItem 0 2 = 0" "fileSortedByPOC exampleItem"
    by code_simp+
  from scan_start_offset [OF h1 h2 h3 h4] e show ?thesis by simp
qed

section \<open>The loader: a frame and type without an index entry\<close>

text \<open>
  C8. A call of the loader on an open file, for a frame and a typeID for which the index
  records no offset, completes without reading a line of the file: nothing of the object
  changes but the two caches, and each cache gets an entry for the typeID that is there
  and empty (a lookup answers \<open>Some []\<close>, not \<open>None\<close>), its other entries as they were.
\<close>

theorem load_without_offset:
  assumes "fileBytes st = Some bytes"
    and "indexedOffset (pocTypeStartList st) frameIdx typeID = None"
  shows "\<exists>live chart.
           loadStatisticToCache frameIdx typeID st =
             Ok (st \<lparr> statSource := (statSource st) \<lparr> statsCache := live \<rparr>,
                      chartStatSource := (chartStatSource st) \<lparr> statsCache := chart \<rparr> \<rparr>)
           \<and> map_of live = (map_of (statsCache (statSource st)))(typeID \<mapsto> [])
           \<and> map_of chart = (map_of (statsCache (chartStatSource st)))(typeID \<mapsto> [])"
proof (intro exI conjI)
  show "loadStatisticToCache frameIdx typeID st =
          Ok (st \<lparr> statSource := (statSource st)
                     \<lparr> statsCache := qinsert typeID [] (statsCache (statSource st)) \<rparr>,
                   chartStatSource := (chartStatSource st)
                     \<lparr> statsCache := qinsert typeID [] (statsCache (chartStatSource st)) \<rparr> \<rparr>)"
    using assms
    by (simp add: loadStatisticToCache_def indexedOffset_absent cacheInsertEmpty_def)
qed (simp_all add: map_of_qinsert)

theorem load_without_offset_witness:
  "\<exists>live chart.
     loadStatisticToCache 1 2 exampleItem =
       Ok (exampleItem \<lparr> statSource := (statSource exampleItem) \<lparr> statsCache := live \<rparr>,
             chartStatSource := (chartStatSource exampleItem) \<lparr> statsCache := chart \<rparr> \<rparr>)
     \<and> map_of live = (map_of (statsCache (statSource exampleItem)))(2 \<mapsto> [])
     \<and> map_of chart = (map_of (statsCache (chartStatSource exampleItem)))(2 \<mapsto> [])"
proof -
  have h1: "fileBytes exampleItem = Some exampleBody"
    by (simp add: exampleItem_def)
  have h2: "indexedOffset (pocTypeStartList exampleItem) 1 2 = None"
    by code_simp
  from load_without_offset [OF h1 h2] show ?thesis .
qed

section \<open>The loader: a record whose payload the type does not declare\<close>

text \<open>
  C1, as the code has it. A record with a vector payload (8 fields) or a line payload
  (10 fields or more) whose type is declared without vector data is not dropped: the
  decoder completes, raises no error, and appends the record to the entry of its typeID
  in both caches as a block value, made of the position, the size and the first value.
\<close>

theorem mismatched_record_cached_as_value:
  assumes "length rowItemList = 8 \<or> 10 \<le> length rowItemList"
    and "getStatisticsType (statSource st) type = Some statsType"
    and "\<not> hasVectorData statsType"
  shows "\<exists>st'. cacheRecord frameIdx rowItemList type st = Some st'
           \<and> parsingError st' = parsingError st
           \<and> map_of (statsCache (statSource st')) type =
               Some (qvalue (statsCache (statSource st)) type @
                 [BlockValue (toInt (rowItemList ! 1)) (toInt (rowItemList ! 2))
                    (wrap32 (toUInt (rowItemList ! 3))) (wrap32 (toUInt (rowItemList ! 4)))
                    (toInt (rowItemList ! 6))])
           \<and> map_of (statsCache (chartStatSource st')) type =
               Some (qvalue (statsCache (chartStatSource st)) type @
                 [BlockValue (toInt (rowItemList ! 1)) (toInt (rowItemList ! 2))
                    (wrap32 (toUInt (rowItemList ! 3))) (wrap32 (toUInt (rowItemList ! 4)))
                    (toInt (rowItemList ! 6))])"
proof -
  from assms(1) consider "length rowItemList = 8" | "9 < length rowItemList" by linarith
  then show ?thesis
  proof cases
    case 1
    then show ?thesis using assms(2,3)
      by (auto simp: cacheRecord_def fld_def Let_def getStatisticsType_def cacheAdd_lookup
          addBlockValue_def)
  next
    case 2
    then show ?thesis using assms(2,3)
      by (auto simp: cacheRecord_def fld_def Let_def getStatisticsType_def cacheAdd_lookup
          addBlockValue_def)
  qed
qed

theorem mismatched_record_cached_as_value_witness:
  "\<exists>st'. cacheRecord 0 [''0'', ''0'', ''0'', ''8'', ''8'', ''1'', ''5'', ''3''] 1 exampleItem
            = Some st'
     \<and> parsingError st' = parsingError exampleItem
     \<and> map_of (statsCache (statSource st')) 1 = Some [BlockValue 0 0 8 8 5]
     \<and> map_of (statsCache (chartStatSource st')) 1 = Some [BlockValue 0 0 8 8 5]"
proof -
  let ?row = "[''0'', ''0'', ''0'', ''8'', ''8'', ''1'', ''5'', ''3'']"
  have h1: "length ?row = 8 \<or> 10 \<le> length ?row" by simp
  have h2: "getStatisticsType (statSource exampleItem) 1 = Some valueType1" by code_simp
  have h3: "\<not> hasVectorData valueType1" by code_simp
  have e: "toInt ''0'' = 0" "toInt ''5'' = 5" "wrap32 (toUInt ''8'') = 8"
    "qvalue (statsCache (statSource exampleItem)) 1 = []"
    "qvalue (statsCache (chartStatSource exampleItem)) 1 = []"
    by code_simp+
  from mismatched_record_cached_as_value [OF h1 h2 h3, of 0] e show ?thesis by simp
qed

text \<open>
  The record \<open>0;0;0;8;8;1;5;3\<close> of the type 1, declared with values only, is in both
  caches after the call.
\<close>

theorem mismatched_record_not_dropped:
  "loadStatisticToCache 0 1 (exampleItem \<lparr> fileSortedByPOC := False \<rparr>) =
     Ok (exampleItem \<lparr> fileSortedByPOC := False,
           statSource := exampleHandler \<lparr> statsCache := [(1, [BlockValue 0 0 8 8 5])] \<rparr>,
           chartStatSource := exampleHandler \<lparr> statsCache := [(1, [BlockValue 0 0 8 8 5])] \<rparr> \<rparr>)"
  by code_simp

section \<open>The loader: the records of one POC in an interleaved file\<close>

lemma cacheRecord_block:
  assumes "6 < length row" and "length row \<noteq> 9"
    and "getStatisticsType (statSource st) (toInt (row ! 5)) = Some statsType"
  shows "cacheRecord frameIdx row (toInt (row ! 5)) st
           = Some (recordCached (statSource st) frameIdx row st)"
proof -
  consider "length row = 7" | "length row = 8" | "9 < length row"
    using assms(1,2) by linarith
  then show ?thesis
  proof cases
    case 1
    then show ?thesis using assms(3)
      by (auto simp: cacheRecord_def fld_def Let_def getStatisticsType_def recordCached_def
          decodedItem_def outsideFrame_def addBlockValue_def cacheAdd_def)
  next
    case 2
    then show ?thesis using assms(3)
      by (auto simp: cacheRecord_def fld_def Let_def getStatisticsType_def recordCached_def
          decodedItem_def outsideFrame_def addBlockValue_def addBlockVector_def cacheAdd_def)
  next
    case 3
    then show ?thesis using assms(3)
      by (auto simp: cacheRecord_def fld_def Let_def getStatisticsType_def recordCached_def
          decodedItem_def outsideFrame_def addBlockValue_def addLine_def cacheAdd_def)
  qed
qed

lemma recordCached_frame:
  "fileSortedByPOC (recordCached h frameIdx row st) = fileSortedByPOC st"
  "statsTypeList (statSource (recordCached h frameIdx row st)) = statsTypeList (statSource st)"
  "statFrameSize (statSource (recordCached h frameIdx row st)) = statFrameSize (statSource st)"
  by (simp_all add: recordCached_def cacheAdd_def)

lemma loadLines_block:
  assumes "fileSortedByPOC st"
    and "statsTypeList (statSource st) = statsTypeList h"
    and "statFrameSize (statSource st) = statFrameSize h"
    and "\<forall>l \<in> set block. emptyFirstField l \<or> blockRecord h frameIdx l"
    and "rest = [] \<or> blockEnd frameIdx (hd rest)"
  shows "loadLines frameIdx typeID (block @ rest) st
           = Ok (fold (recordCached h frameIdx) (blockRows block) st)"
  using assms
proof (induction block arbitrary: st)
  case Nil
  show ?case
  proof (cases rest)
    case Nil
    then show ?thesis by (simp add: blockRows_def)
  next
    case (Cons l ls)
    with Nil.prems(5) have "blockEnd frameIdx l" by simp
    then show ?thesis using Cons
      by (simp add: blockRows_def blockEnd_def Let_def fld_def parseCSVLine_nonempty)
  qed
next
  case (Cons l block)
  let ?row = "parseCSVLine l (CHR '';'')"
  have rest: "\<forall>l \<in> set block. emptyFirstField l \<or> blockRecord h frameIdx l"
    using Cons.prems(4) by simp
  show ?case
  proof (cases "?row ! 0 = []")
    case True
    then have "loadLines frameIdx typeID ((l # block) @ rest) st
                 = loadLines frameIdx typeID (block @ rest) st"
      by (simp add: fld_first Let_def)
    also have "\<dots> = Ok (fold (recordCached h frameIdx) (blockRows block) st)"
      using Cons.prems(1,2,3) rest Cons.prems(5) by (rule Cons.IH)
    finally show ?thesis using True by (simp add: blockRows_def)
  next
    case False
    with Cons.prems(4) have rec: "blockRecord h frameIdx l"
      by (simp add: emptyFirstField_def)
    then have len: "6 < length ?row" "length ?row \<noteq> 9"
      and poc: "toInt (?row ! 0) = frameIdx"
      and ty: "getStatisticsType h (toInt (?row ! 5)) \<noteq> None"
      by (simp_all add: blockRecord_def Let_def)
    from ty Cons.prems(2) obtain statsType
      where ty': "getStatisticsType (statSource st) (toInt (?row ! 5)) = Some statsType"
      by (auto simp: getStatisticsType_def)
    let ?st' = "recordCached h frameIdx ?row st"
    have same: "recordCached (statSource st) frameIdx ?row st = ?st'"
      using Cons.prems(2,3) by (simp add: recordCached_def getStatisticsType_def)
    have c: "cacheRecord frameIdx ?row (toInt (?row ! 5)) st = Some ?st'"
      using cacheRecord_block [OF len ty', of frameIdx] same by simp
    have f5: "fld ?row 5 = Some (?row ! 5)" using len by (simp add: fld_def)
    have "loadLines frameIdx typeID ((l # block) @ rest) st
            = loadLines frameIdx typeID (block @ rest) ?st'"
      using False poc c Cons.prems(1) by (simp add: fld_first f5 Let_def)
    also have "\<dots> = Ok (fold (recordCached h frameIdx) (blockRows block) ?st')"
      using Cons.prems(1,2,3) rest Cons.prems(5)
      by (intro Cons.IH) (simp_all add: recordCached_frame)
    finally show ?thesis using False by (simp add: blockRows_def)
  qed
qed

lemma outside_step: 
  assumes i: "blockOutsideOfFrame_idx st' =
      (if blockOutsideOfFrame_idx st = - 1 \<and> outsideFrame (statFrameSize h) row
       then frameIdx else blockOutsideOfFrame_idx st)"
  shows "(if blockOutsideOfFrame_idx st' = - 1
                \<and> (\<exists>row \<in> set rows. outsideFrame (statFrameSize h) row)
             then frameIdx else blockOutsideOfFrame_idx st')
         = (if blockOutsideOfFrame_idx st = - 1
                \<and> (\<exists>row \<in> set (row # rows). outsideFrame (statFrameSize h) row)
             then frameIdx else blockOutsideOfFrame_idx st)"
proof (cases "blockOutsideOfFrame_idx st = - 1")
  case True
  show ?thesis
  proof (cases "outsideFrame (statFrameSize h) row")
    case True
    with \<open>blockOutsideOfFrame_idx st = - 1\<close> i have "blockOutsideOfFrame_idx st' = frameIdx" by simp
    then show ?thesis using True \<open>blockOutsideOfFrame_idx st = - 1\<close> by simp
  next
    case False
    with \<open>blockOutsideOfFrame_idx st = - 1\<close> i have "blockOutsideOfFrame_idx st' = - 1" by simp
    then show ?thesis using False \<open>blockOutsideOfFrame_idx st = - 1\<close> by simp
  qed
next
  case False
  with i have "blockOutsideOfFrame_idx st' = blockOutsideOfFrame_idx st" by simp
  then show ?thesis using False by simp
qed

lemma fold_recordCached:
  "fold (recordCached h frameIdx) rows st =
     st \<lparr> blockOutsideOfFrame_idx :=
            (if blockOutsideOfFrame_idx st = - 1
                \<and> (\<exists>row \<in> set rows. outsideFrame (statFrameSize h) row)
             then frameIdx else blockOutsideOfFrame_idx st),
          statSource := (statSource st)
            \<lparr> statsCache := fold (cacheStep h) rows (statsCache (statSource st)) \<rparr>,
          chartStatSource := (chartStatSource st)
            \<lparr> statsCache := fold (cacheStep h) rows (statsCache (chartStatSource st)) \<rparr> \<rparr>"
proof (induction rows arbitrary: st)
  case Nil
  show ?case by simp
next
  case (Cons row rows)
  let ?st = "recordCached h frameIdx row st"
  have i: "blockOutsideOfFrame_idx ?st =
      (if blockOutsideOfFrame_idx st = - 1 \<and> outsideFrame (statFrameSize h) row
       then frameIdx else blockOutsideOfFrame_idx st)"
    by (simp add: recordCached_def)
  have a: "statSource ?st = (statSource st)
      \<lparr> statsCache := cacheStep h row (statsCache (statSource st)) \<rparr>"
    and b: "chartStatSource ?st = (chartStatSource st)
      \<lparr> statsCache := cacheStep h row (statsCache (chartStatSource st)) \<rparr>"
    by (simp_all add: recordCached_def cacheAdd_def cacheStep_def)
  have e: "?st \<lparr> blockOutsideOfFrame_idx := x, statSource := y, chartStatSource := z \<rparr>
         = st \<lparr> blockOutsideOfFrame_idx := x, statSource := y, chartStatSource := z \<rparr>"
    for x y z
    by (simp add: recordCached_def)
  note j = outside_step [OF i, of rows]
  have "fold (recordCached h frameIdx) (row # rows) st = fold (recordCached h frameIdx) rows ?st"
    by simp
  also note Cons.IH [of ?st]
  finally show ?case
    unfolding j e a b by simp
qed

lemma typeItems_snoc:
  "typeItems h (rows @ [row]) t =
     typeItems h rows t
       @ (if toInt (row ! 5) = t
          then [decodedItem (case getStatisticsType h t of None \<Rightarrow> False
                             | Some statsType \<Rightarrow> hasVectorData statsType) row]
          else [])"
  by (simp add: typeItems_def)

lemma qvalue_cachedBlock:
  assumes "map_of c' = cachedBlock h rows c"
  shows "qvalue c' t = qvalue c t @ typeItems h rows t"
  using assms by (simp add: qvalue_def cachedBlock_def)

lemma map_of_fold_cacheStep:
  "map_of (fold (cacheStep h) rows c) = cachedBlock h rows c"
proof (induction rows rule: rev_induct)
  case Nil
  show ?case by (simp add: cachedBlock_def typeItems_def fun_eq_iff)
next
  case (snoc row rows)
  let ?c = "fold (cacheStep h) rows c"
  have "map_of (fold (cacheStep h) (rows @ [row]) c) t = cachedBlock h (rows @ [row]) c t" for t
  proof (cases "toInt (row ! 5) = t")
    case True
    then show ?thesis
      by (simp add: cacheStep_def map_of_qinsert qvalue_cachedBlock [OF snoc.IH]
          cachedBlock_def typeItems_snoc)
  next
    case False
    then show ?thesis
      by (simp add: cacheStep_def map_of_qinsert snoc.IH cachedBlock_def typeItems_snoc)
  qed
  then show ?case by (simp add: fun_eq_iff)
qed

text \<open>
  C2, as the code has it. The file is open and held to be interleaved, the index has an
  entry for the requested POC and typeID, and the lines from the start offset are a
  block of lines, each with an empty first field or a record of the requested POC with
  7, 8 or at least 10 fields and a declared type, followed by the end of the file or by
  a record of at least 6 fields with another POC. Then the call completes, the loop
  ends at that record, and every record of the block is decoded, whatever its typeID is,
  the requested one or another: in both caches the entry of each typeID of the block
  holds what it held, followed by the items of the records with that typeID, in their
  order; the other entries are as they were. Nothing else in the object changes, but
  for \<open>blockOutsideOfFrame_idx\<close>, which becomes the requested POC if it was \<open>-1\<close> and a
  record of the block lies outside the frame.
\<close>

theorem interleaved_block_decodes_every_type:
  assumes "fileBytes st = Some bytes" and "fileSortedByPOC st"
    and "qcontains (pocTypeStartList st) frameIdx"
    and "qcontains (qvalue (pocTypeStartList st) frameIdx) typeID"
    and "textLines (drop (nat (scanStartPos st frameIdx typeID)) bytes) = block @ rest"
    and "\<forall>l \<in> set block. emptyFirstField l \<or> blockRecord (statSource st) frameIdx l"
    and "rest = [] \<or> blockEnd frameIdx (hd rest)"
  shows "\<exists>c1 c2.
           loadStatisticToCache frameIdx typeID st =
             Ok (st \<lparr> blockOutsideOfFrame_idx :=
                        (if blockOutsideOfFrame_idx st = - 1
                            \<and> (\<exists>row \<in> set (blockRows block).
                                   outsideFrame (statFrameSize (statSource st)) row)
                         then frameIdx else blockOutsideOfFrame_idx st),
                      statSource := (statSource st) \<lparr> statsCache := c1 \<rparr>,
                      chartStatSource := (chartStatSource st) \<lparr> statsCache := c2 \<rparr> \<rparr>)
           \<and> map_of c1 = cachedBlock (statSource st) (blockRows block) (statsCache (statSource st))
           \<and> map_of c2 =
               cachedBlock (statSource st) (blockRows block) (statsCache (chartStatSource st))"
proof -
  have "loadStatisticToCache frameIdx typeID st
          = loadLines frameIdx typeID (block @ rest) st"
    using assms(1,3,4,5) by (simp add: loadStatisticToCache_def)
  also have "\<dots> = Ok (fold (recordCached (statSource st) frameIdx) (blockRows block) st)"
    using assms(2) _ _ assms(6,7) by (rule loadLines_block) simp_all
  finally show ?thesis
    unfolding fold_recordCached
    by (intro exI conjI) (assumption, rule map_of_fold_cacheStep, rule map_of_fold_cacheStep)
qed

theorem interleaved_block_decodes_every_type_witness:
  "\<exists>c1 c2.
     loadStatisticToCache 0 1 exampleItem =
       Ok (exampleItem \<lparr> statSource := exampleHandler \<lparr> statsCache := c1 \<rparr>,
                          chartStatSource := exampleHandler \<lparr> statsCache := c2 \<rparr> \<rparr>)
     \<and> map_of c1 1 = Some [BlockValue 0 0 8 8 5]
     \<and> map_of c1 2 = Some [BlockVector 8 0 8 8 7 1]
     \<and> map_of c2 1 = Some [BlockValue 0 0 8 8 5]
     \<and> map_of c2 2 = Some [BlockVector 8 0 8 8 7 1]"
proof -
  let ?block = "[''0;0;0;8;8;1;5;3'', ''0;8;0;8;8;2;7;1'']"
  let ?rest = "[''1;0;0;8;8;1;9'']"
  have h1: "fileBytes exampleItem = Some exampleBody" "fileSortedByPOC exampleItem"
    by code_simp+
  have h2: "qcontains (pocTypeStartList exampleItem) 0"
    "qcontains (qvalue (pocTypeStartList exampleItem) 0) 1"
    by code_simp+
  have h3: "textLines (drop (nat (scanStartPos exampleItem 0 1)) exampleBody) = ?block @ ?rest"
    by code_simp
  have h4: "\<forall>l \<in> set ?block. emptyFirstField l \<or> blockRecord (statSource exampleItem) 0 l"
    by code_simp
  have "blockEnd 0 (hd ?rest)" by code_simp
  then have h5: "?rest = [] \<or> blockEnd 0 (hd ?rest)" by simp
  have e1: "(if blockOutsideOfFrame_idx exampleItem = - 1
                \<and> (\<exists>row \<in> set (blockRows ?block).
                       outsideFrame (statFrameSize exampleHandler) row)
             then 0 else blockOutsideOfFrame_idx exampleItem) = - 1"
    by code_simp
  have e2: "statSource exampleItem = exampleHandler" "chartStatSource exampleItem = exampleHandler"
    by (simp_all add: exampleItem_def)
  have e3: "exampleItem \<lparr> blockOutsideOfFrame_idx := - 1, statSource := a, chartStatSource := b \<rparr>
      = exampleItem \<lparr> statSource := a, chartStatSource := b \<rparr>" for a b
    by (simp add: exampleItem_def)
  have e4: "cachedBlock exampleHandler (blockRows ?block) (statsCache exampleHandler) 1
              = Some [BlockValue 0 0 8 8 5]"
    "cachedBlock exampleHandler (blockRows ?block) (statsCache exampleHandler) 2
              = Some [BlockVector 8 0 8 8 7 1]"
    by code_simp+
  from interleaved_block_decodes_every_type [OF h1 h2 h3 h4 h5] obtain c1 c2
    where "loadStatisticToCache 0 1 exampleItem =
       Ok (exampleItem \<lparr> statSource := exampleHandler \<lparr> statsCache := c1 \<rparr>,
                          chartStatSource := exampleHandler \<lparr> statsCache := c2 \<rparr> \<rparr>)"
      and "map_of c1 = cachedBlock exampleHandler (blockRows ?block) (statsCache exampleHandler)"
      and "map_of c2 = cachedBlock exampleHandler (blockRows ?block) (statsCache exampleHandler)"
    unfolding e2 e1 e3 by blast
  then show ?thesis by (intro exI [of _ c1] exI [of _ c2]) (simp add: e4)
qed

text \<open>
  The call for the POC 0 and the typeID 1 on the interleaved file leaves the record of
  the typeID 2 in both caches.
\<close>

theorem interleaved_other_type_cached:
  "loadStatisticToCache 0 1 exampleItem =
     Ok (exampleItem \<lparr>
           statSource := exampleHandler
             \<lparr> statsCache := [(1, [BlockValue 0 0 8 8 5]), (2, [BlockVector 8 0 8 8 7 1])] \<rparr>,
           chartStatSource := exampleHandler
             \<lparr> statsCache := [(1, [BlockValue 0 0 8 8 5]), (2, [BlockVector 8 0 8 8 7 1])] \<rparr> \<rparr>)"
  by code_simp

section \<open>The loader: a record of nine fields\<close>

text \<open>
  C10. A record that reaches the decoding step (its first field is not empty, its POC is
  the requested one and, in a file that is not interleaved, its typeID is the requested
  one) with more than 8 fields has the fields 8 and 9 read. With exactly 9 fields the
  read of field 9 is out of range: the loader dies there.
\<close>

theorem nine_fields_crash:
  assumes "parseCSVLine aLine (CHR '';'') = rowItemList"
    and "length rowItemList = 9"
    and "rowItemList ! 0 \<noteq> []"
    and "toInt (rowItemList ! 0) = frameIdx"
    and "fileSortedByPOC st \<or> toInt (rowItemList ! 5) = typeID"
  shows "loadLines frameIdx typeID (aLine # rest) st = Crash"
proof -
  from assms(2) have f: "fld rowItemList 0 = Some (rowItemList ! 0)"
    "fld rowItemList 5 = Some (rowItemList ! 5)" "fld rowItemList 6 = Some (rowItemList ! 6)"
    "fld rowItemList 7 = Some (rowItemList ! 7)" "fld rowItemList 8 = Some (rowItemList ! 8)"
    "fld rowItemList 9 = None"
    by (simp_all add: fld_def)
  have "cacheRecord frameIdx rowItemList (toInt (rowItemList ! 5)) st = None"
    using assms(2) by (simp add: cacheRecord_def f)
  then show ?thesis
    using assms by (auto simp: f Let_def)
qed

theorem nine_fields_crash_witness:
  "loadLines 0 2 [''0;8;0;8;8;2;7;1;4''] exampleItem = Crash"
proof -
  let ?row = "[''0'', ''8'', ''0'', ''8'', ''8'', ''2'', ''7'', ''1'', ''4'']"
  have h1: "parseCSVLine ''0;8;0;8;8;2;7;1;4'' (CHR '';'') = ?row" by code_simp
  have h2: "length ?row = 9" "?row ! 0 \<noteq> []" by simp_all
  have h3: "toInt (?row ! 0) = 0" by code_simp
  have h4: "fileSortedByPOC exampleItem \<or> toInt (?row ! 5) = 2" by code_simp
  from nine_fields_crash [OF h1 h2 h3 h4] show ?thesis .
qed

section \<open>The header reader: a record with too few fields\<close>

text \<open>
  C6. The header of a type whose \<open>range\<close> record has four fields only:
  \<open>rowItemList[4]\<close> is read out of range. The header reader dies there; it does not
  complete with a parsing error.
\<close>

theorem truncated_range_crashes:
  "readHeaderFromFile positiveDouble (exampleItem \<lparr> fileBytes := Some truncatedRangeHeader \<rparr>)
     = Crash"
  by code_simp

section \<open>The indexer: the buffer does not matter\<close>

lemma sameScan_refl: "sameScan s s"
  by (simp add: sameScan_def)

lemma sameScan_sym: "sameScan s s' \<Longrightarrow> sameScan s' s"
  by (simp add: sameScan_def)

lemma sameScan_trans: "sameScan s s' \<Longrightarrow> sameScan s' s'' \<Longrightarrow> sameScan s s''"
  by (simp add: sameScan_def)

lemma rel_same_refl: "rel_outcome sameScan r r"
  by (cases r) (simp_all add: sameScan_refl)

lemma rel_same_trans:
  "rel_outcome sameScan a b \<Longrightarrow> rel_outcome sameScan b c \<Longrightarrow> rel_outcome sameScan a c"
  by (cases a; cases b; cases c) (auto intro: sameScan_trans)

lemma indexRecord_same:
  assumes "sameScan s s'"
  shows "rel_outcome sameScan (indexRecord poc typeID s) (indexRecord poc typeID s')"
  using assms
  by (cases s; cases s') (auto simp: sameScan_def indexRecord_def Let_def split: option.splits)

lemma indexRecord_frame:
  assumes "indexRecord poc typeID s = Ok s2"
  shows "bufferStartPos (snd s2) = bufferStartPos (snd s) \<and> fileAtEnd (snd s2) = fileAtEnd (snd s)"
  using assms
  by (cases s) (auto simp: indexRecord_def Let_def split: if_splits option.splits)

lemma processLine_same:
  assumes "sameScan s s'"
  shows "rel_outcome sameScan (processLine s) (processLine s')"
proof -
  from assms have l: "lineBuffer (snd s) = lineBuffer (snd s')" by (simp add: sameScan_def)
  show ?thesis
    using assms indexRecord_same [OF assms]
    by (auto simp: processLine_def l Let_def split: option.splits)
qed

lemma processLine_frame:
  assumes "processLine s = Ok s2"
  shows "bufferStartPos (snd s2) = bufferStartPos (snd s) \<and> fileAtEnd (snd s2) = fileAtEnd (snd s)"
  using assms indexRecord_frame
  by (auto simp: processLine_def Let_def split: option.splits if_splits)

lemma scanBuffer_frame:
  "scanBuffer i cs s = Ok s2 \<Longrightarrow>
     bufferStartPos (snd s2) = bufferStartPos (snd s) \<and> fileAtEnd (snd s2) = fileAtEnd (snd s)"
proof (induction cs arbitrary: i s)
  case Nil
  then show ?case by simp
next
  case (Cons c cs)
  show ?case
  proof (cases "c = CHR 0x0A")
    case False
    with Cons.prems Cons.IH show ?thesis by fastforce
  next
    case True
    show ?thesis
    proof (cases "lineBuffer (snd s) \<noteq> []")
      case False
      with True Cons.prems Cons.IH show ?thesis by fastforce
    next
      case nonempty: True
      with True Cons.prems obtain s1 where p: "processLine s = Ok s1"
        by (auto split: outcome.splits)
      with True nonempty Cons.prems Cons.IH processLine_frame [OF p] show ?thesis
        by fastforce
    qed
  qed
qed

lemma scanBuffer_same:
  assumes "sameScan s s'"
    and "bufferStartPos (snd s) + int i = bufferStartPos (snd s') + int i'"
  shows "rel_outcome sameScan (scanBuffer i cs s) (scanBuffer i' cs s')"
  using assms
proof (induction cs arbitrary: i i' s s')
  case Nil
  then show ?case by simp
next
  case (Cons c cs)
  show ?case
  proof (cases "c = CHR 0x0A")
    case False
    have "sameScan (fst s, (snd s) \<lparr> lineBuffer := lineBuffer (snd s) @ [c] \<rparr>)
            (fst s', (snd s') \<lparr> lineBuffer := lineBuffer (snd s') @ [c] \<rparr>)"
      using Cons.prems(1) by (simp add: sameScan_def)
    then have "rel_outcome sameScan
            (scanBuffer (Suc i) cs (fst s, (snd s) \<lparr> lineBuffer := lineBuffer (snd s) @ [c] \<rparr>))
            (scanBuffer (Suc i') cs (fst s', (snd s') \<lparr> lineBuffer := lineBuffer (snd s') @ [c] \<rparr>))"
      using Cons.prems(2) by (intro Cons.IH) simp_all
    with False show ?thesis by simp
  next
    case True
    let ?p = "if lineBuffer (snd s) \<noteq> [] then processLine s else Ok s"
    let ?p' = "if lineBuffer (snd s') \<noteq> [] then processLine s' else Ok s'"
    have l: "lineBuffer (snd s) = lineBuffer (snd s')"
      using Cons.prems(1) by (simp add: sameScan_def)
    have rel: "rel_outcome sameScan ?p ?p'"
      using processLine_same [OF Cons.prems(1)] Cons.prems(1) by (simp add: l)
    show ?thesis
    proof (cases ?p)
      case (Ok s1)
      with rel obtain s1' where ok': "?p' = Ok s1'" and same1: "sameScan s1 s1'"
        by (cases ?p') auto
      have fr: "bufferStartPos (snd s1) = bufferStartPos (snd s)"
        using Ok processLine_frame [of s s1] by (auto split: if_splits)
      have fr': "bufferStartPos (snd s1') = bufferStartPos (snd s')"
        using ok' processLine_frame [of s' s1'] by (auto split: if_splits)
      have "rel_outcome sameScan
              (scanBuffer (Suc i) cs (fst s1, (snd s1) \<lparr> lineBuffer := [],
                 lineBufferStartPos := bufferStartPos (snd s1) + int i + 1 \<rparr>))
              (scanBuffer (Suc i') cs (fst s1', (snd s1') \<lparr> lineBuffer := [],
                 lineBufferStartPos := bufferStartPos (snd s1') + int i' + 1 \<rparr>))"
        using same1 fr fr' Cons.prems(2) by (intro Cons.IH) (simp_all add: sameScan_def)
      with True Ok ok' show ?thesis by simp
    next
      case (Throw m s1)
      with rel obtain s1' where "?p' = Throw m s1'" "sameScan s1 s1'"
        by (cases ?p') auto
      with True Throw show ?thesis by simp
    next
      case Crash
      with rel have "?p' = Crash" by (cases ?p') auto
      with True Crash show ?thesis by simp
    qed
  qed
qed

lemma scanBuffer_append:
  "scanBuffer i (xs @ ys) s =
     (case scanBuffer i xs s of
        Ok s' \<Rightarrow> scanBuffer (i + length xs) ys s'
      | Throw m s' \<Rightarrow> Throw m s'
      | Crash \<Rightarrow> Crash)"
  by (induction xs arbitrary: i s) (auto split: outcome.splits)

lemma scanBuffer_line:
  "CHR 0x0A \<notin> set line \<Longrightarrow>
   scanBuffer i (line @ CHR 0x0A # rest) s =
     (case (if lineBuffer (snd s) @ line \<noteq> []
            then processLine (fst s, (snd s) \<lparr> lineBuffer := lineBuffer (snd s) @ line \<rparr>)
            else Ok s) of
        Ok s' \<Rightarrow>
          scanBuffer (Suc (i + length line)) rest
            (fst s', (snd s') \<lparr> lineBuffer := [],
               lineBufferStartPos := bufferStartPos (snd s') + int (i + length line) + 1 \<rparr>)
      | Throw m s' \<Rightarrow> Throw m s'
      | Crash \<Rightarrow> Crash)"
proof (induction line arbitrary: i s)
  case Nil
  then show ?case by (simp split: outcome.splits)
next
  case (Cons c line)
  then have "c \<noteq> CHR 0x0A" and "CHR 0x0A \<notin> set line" by auto
  with Cons.IH [of "Suc i" "(fst s, (snd s) \<lparr> lineBuffer := lineBuffer (snd s) @ [c] \<rparr>)"]
  show ?case by (simp cong: outcome.case_cong)
qed

lemma full_chunk_step:
  assumes "\<not> fileAtEnd (snd s)" and "bufferStartPos (snd s) = int b"
    and "b + bufSize \<le> length bytes" and "\<not> cancel k"
  shows "scanChunks bufSize cancel bytes k s =
           (case scanBuffer 0 (take bufSize (drop b bytes)) s of
              Ok s2 \<Rightarrow> scanChunks bufSize cancel bytes (Suc k)
                         (fst s2, (snd s2) \<lparr> bufferStartPos := int (b + bufSize) \<rparr>)
            | Throw m s2 \<Rightarrow> Some (Throw m s2)
            | Crash \<Rightarrow> Some Crash)"
proof -
  have len: "length (take bufSize (drop b bytes)) = bufSize"
    using assms(3) by simp
  have "scanChunk bufSize bytes s =
          (case scanBuffer 0 (take bufSize (drop b bytes)) s of
             Ok s2 \<Rightarrow> Ok (fst s2, (snd s2) \<lparr> bufferStartPos := int (b + bufSize) \<rparr>)
           | Throw m s2 \<Rightarrow> Throw m s2
           | Crash \<Rightarrow> Crash)"
    using assms(2) len scanBuffer_frame [of 0 "take bufSize (drop b bytes)" s]
    by (auto simp: scanChunk_def readBytes_def Let_def split: outcome.splits)
  then show ?thesis
    using assms(1,4) by (subst scanChunks.simps) (auto split: outcome.splits)
qed

lemma last_chunk_step:
  assumes "\<not> fileAtEnd (snd s)" and "bufferStartPos (snd s) = int b"
    and "length bytes < b + bufSize" and "\<not> cancel k" and "0 < bufSize"
  shows "\<exists>r. scanChunks bufSize cancel bytes k s = Some r
           \<and> rel_outcome sameScan r (scanBuffer 0 (drop b bytes) s)"
proof -
  let ?s1 = "(fst s, (snd s) \<lparr> fileAtEnd := True \<rparr>)"
  have tk: "take bufSize (drop b bytes) = drop b bytes" and len: "length (drop b bytes) < bufSize"
    using assms(3,5) by simp_all
  have rel: "rel_outcome sameScan (scanBuffer 0 (drop b bytes) ?s1) (scanBuffer 0 (drop b bytes) s)"
    by (rule scanBuffer_same) (simp_all add: sameScan_def)
  have chunk: "scanChunk bufSize bytes s =
          (case scanBuffer 0 (drop b bytes) ?s1 of
             Ok s2 \<Rightarrow> Ok (fst s2, (snd s2) \<lparr> bufferStartPos :=
                            bufferStartPos (snd s2) + int (length (drop b bytes)) \<rparr>)
           | Throw m s2 \<Rightarrow> Throw m s2
           | Crash \<Rightarrow> Crash)"
    using assms(2) len by (simp add: scanChunk_def readBytes_def Let_def tk)
  show ?thesis
  proof (cases "scanBuffer 0 (drop b bytes) ?s1")
    case (Ok s2)
    let ?s3 = "(fst s2, (snd s2) \<lparr> bufferStartPos :=
                  bufferStartPos (snd s2) + int (length (drop b bytes)) \<rparr>)"
    from scanBuffer_frame [OF Ok] have "fileAtEnd (snd ?s3)" by simp
    then have "scanChunks bufSize cancel bytes (Suc k) ?s3 = Some (Ok ?s3)"
      by (subst scanChunks.simps) simp
    then have "scanChunks bufSize cancel bytes k s = Some (Ok ?s3)"
      using assms(1,4) chunk Ok by (subst scanChunks.simps) simp
    moreover have "rel_outcome sameScan (Ok ?s3) (scanBuffer 0 (drop b bytes) ?s1)"
      using Ok by (simp add: sameScan_def)
    ultimately show ?thesis using rel rel_same_trans by blast
  next
    case (Throw m s2)
    then have "scanChunks bufSize cancel bytes k s = Some (Throw m s2)"
      using assms(1,4) chunk by (subst scanChunks.simps) simp
    with Throw rel show ?thesis by simp
  next
    case Crash
    then have "scanChunks bufSize cancel bytes k s = Some Crash"
      using assms(1,4) chunk by (subst scanChunks.simps) simp
    with Crash rel show ?thesis by simp
  qed
qed

lemma chunk_then_rest:
  assumes "bufferStartPos (snd s) = int b" and "b + bufSize \<le> length bytes"
    and "scanBuffer 0 (take bufSize (drop b bytes)) s = Ok s2"
  shows "rel_outcome sameScan
           (scanBuffer 0 rest (fst s2, (snd s2) \<lparr> bufferStartPos := int (b + bufSize) \<rparr>))
           (scanBuffer 0 (take bufSize (drop b bytes) @ rest) s)"
proof -
  have len: "length (take bufSize (drop b bytes)) = bufSize"
    using assms(2) by simp
  have "scanBuffer 0 (take bufSize (drop b bytes) @ rest) s = scanBuffer bufSize rest s2"
    using assms(3) len by (simp add: scanBuffer_append)
  moreover have "rel_outcome sameScan
           (scanBuffer 0 rest (fst s2, (snd s2) \<lparr> bufferStartPos := int (b + bufSize) \<rparr>))
           (scanBuffer bufSize rest s2)"
    using scanBuffer_frame [OF assms(3)] assms(1)
    by (intro scanBuffer_same) (simp_all add: sameScan_def)
  ultimately show ?thesis by simp
qed

lemma scanChunks_to_end:
  assumes "0 < bufSize" and "\<forall>k. \<not> cancel k"
  shows "\<not> fileAtEnd (snd s) \<Longrightarrow> bufferStartPos (snd s) = int b \<Longrightarrow>
         \<exists>r. scanChunks bufSize cancel bytes k s = Some r
           \<and> rel_outcome sameScan r (scanBuffer 0 (drop b bytes) s)"
proof (induction "length bytes - b" arbitrary: b k s rule: less_induct)
  case less
  show ?case
  proof (cases "b + bufSize \<le> length bytes")
    case False
    then show ?thesis
      using less.prems assms by (intro last_chunk_step) simp_all
  next
    case True
    let ?chunk = "take bufSize (drop b bytes)"
    have split: "drop b bytes = ?chunk @ drop (b + bufSize) bytes"
      by (metis add.commute append_take_drop_id drop_drop)
    have step: "scanChunks bufSize cancel bytes k s =
           (case scanBuffer 0 ?chunk s of
              Ok s2 \<Rightarrow> scanChunks bufSize cancel bytes (Suc k)
                         (fst s2, (snd s2) \<lparr> bufferStartPos := int (b + bufSize) \<rparr>)
            | Throw m s2 \<Rightarrow> Some (Throw m s2)
            | Crash \<Rightarrow> Some Crash)"
      using less.prems True assms(2) by (intro full_chunk_step) simp_all
    show ?thesis
    proof (cases "scanBuffer 0 ?chunk s")
      case (Ok s2)
      let ?s3 = "(fst s2, (snd s2) \<lparr> bufferStartPos := int (b + bufSize) \<rparr>)"
      have "length bytes - (b + bufSize) < length bytes - b"
        using True assms(1) by linarith
      moreover have "\<not> fileAtEnd (snd ?s3)"
        using scanBuffer_frame [OF Ok] less.prems(1) by simp
      ultimately obtain r where r: "scanChunks bufSize cancel bytes (Suc k) ?s3 = Some r"
        and rel: "rel_outcome sameScan r (scanBuffer 0 (drop (b + bufSize) bytes) ?s3)"
        using less.hyps [of "b + bufSize" ?s3 "Suc k"] by auto
      have "rel_outcome sameScan (scanBuffer 0 (drop (b + bufSize) bytes) ?s3)
              (scanBuffer 0 (?chunk @ drop (b + bufSize) bytes) s)"
        using less.prems(2) True Ok by (rule chunk_then_rest)
      with rel have "rel_outcome sameScan r (scanBuffer 0 (drop b bytes) s)"
        using split rel_same_trans by metis
      with r step Ok show ?thesis by simp
    next
      case (Throw m s2)
      then have "scanBuffer 0 (drop b bytes) s = Throw m s2"
        by (subst split) (simp add: scanBuffer_append)
      with step Throw show ?thesis by (simp add: sameScan_refl)
    next
      case Crash
      then have "scanBuffer 0 (drop b bytes) s = Crash"
        by (subst split) (simp add: scanBuffer_append)
      with step Crash show ?thesis by simp
    qed
  qed
qed

lemma scanChunks_canceled:
  "\<not> fileAtEnd (snd s) \<Longrightarrow> bufferStartPos (snd s) = int b \<Longrightarrow>
   b + n * bufSize \<le> length bytes \<Longrightarrow> \<forall>j<n. \<not> cancel (k + j) \<Longrightarrow> cancel (k + n) \<Longrightarrow>
   \<exists>r. scanChunks bufSize cancel bytes k s = Some r
     \<and> rel_outcome sameScan r (scanBuffer 0 (take (n * bufSize) (drop b bytes)) s)"
proof (induction n arbitrary: b k s)
  case 0
  then have "scanChunks bufSize cancel bytes k s = Some (Ok s)"
    by (subst scanChunks.simps) simp
  then show ?case by (simp add: sameScan_refl)
next
  case (Suc n)
  let ?chunk = "take bufSize (drop b bytes)"
  let ?rest = "take (n * bufSize) (drop (b + bufSize) bytes)"
  from Suc.prems(3) have fits: "b + bufSize \<le> length bytes" by simp
  have split: "take (Suc n * bufSize) (drop b bytes) = ?chunk @ ?rest"
    by (simp add: take_add add.commute)
  from Suc.prems(4) have nc: "\<not> cancel k" by (metis add.right_neutral zero_less_Suc)
  have step: "scanChunks bufSize cancel bytes k s =
         (case scanBuffer 0 ?chunk s of
            Ok s2 \<Rightarrow> scanChunks bufSize cancel bytes (Suc k)
                       (fst s2, (snd s2) \<lparr> bufferStartPos := int (b + bufSize) \<rparr>)
          | Throw m s2 \<Rightarrow> Some (Throw m s2)
          | Crash \<Rightarrow> Some Crash)"
    using Suc.prems(1,2) fits nc by (rule full_chunk_step)
  show ?case
  proof (cases "scanBuffer 0 ?chunk s")
    case (Ok s2)
    let ?s3 = "(fst s2, (snd s2) \<lparr> bufferStartPos := int (b + bufSize) \<rparr>)"
    have "\<not> fileAtEnd (snd ?s3)"
      using scanBuffer_frame [OF Ok] Suc.prems(1) by simp
    moreover have "b + bufSize + n * bufSize \<le> length bytes"
      using Suc.prems(3) by (simp add: add.assoc)
    moreover have "\<forall>j<n. \<not> cancel (Suc k + j)" using Suc.prems(4) by auto
    moreover have "cancel (Suc k + n)" using Suc.prems(5) by simp
    ultimately obtain r where r: "scanChunks bufSize cancel bytes (Suc k) ?s3 = Some r"
      and rel: "rel_outcome sameScan r (scanBuffer 0 ?rest ?s3)"
      using Suc.IH [of ?s3 "b + bufSize" "Suc k"] by auto
    have "rel_outcome sameScan (scanBuffer 0 ?rest ?s3) (scanBuffer 0 (?chunk @ ?rest) s)"
      using Suc.prems(2) fits Ok by (rule chunk_then_rest)
    with rel have "rel_outcome sameScan r (scanBuffer 0 (take (Suc n * bufSize) (drop b bytes)) s)"
      using split rel_same_trans by metis
    with r step Ok show ?thesis by simp
  next
    case (Throw m s2)
    then have "scanBuffer 0 (take (Suc n * bufSize) (drop b bytes)) s = Throw m s2"
      by (subst split) (simp add: scanBuffer_append)
    with step Throw show ?thesis by (simp add: sameScan_refl)
  next
    case Crash
    then have "scanBuffer 0 (take (Suc n * bufSize) (drop b bytes)) s = Crash"
      by (subst split) (simp add: scanBuffer_append)
    with step Crash show ?thesis by simp
  qed
qed

lemma scan_to_end:
  assumes "0 < bufSize" and "\<forall>k. \<not> cancel k"
  shows "\<exists>r. scanChunks bufSize cancel bytes 0 (st, scanLocals0) = Some r
           \<and> rel_outcome sameScan r (scanBuffer 0 bytes (st, scanLocals0))"
  using scanChunks_to_end [OF assms, of "(st, scanLocals0)" 0 bytes 0]
  by (simp add: scanLocals0_def)

lemma scan_canceled:
  assumes "k * bufSize \<le> length bytes" and "\<forall>j<k. \<not> cancel j" and "cancel k"
  shows "\<exists>r. scanChunks bufSize cancel bytes 0 (st, scanLocals0) = Some r
           \<and> rel_outcome sameScan r (scanBuffer 0 (take (k * bufSize) bytes) (st, scanLocals0))"
  using scanChunks_canceled [of "(st, scanLocals0)" 0 k bufSize bytes cancel 0] assms
  by (simp add: scanLocals0_def)

lemma read_to_end:
  assumes "0 < bufSize" and "\<forall>k. \<not> cancel k"
    and "scanBuffer 0 bytes (st, scanLocals0) = Ok (st', loc')"
  shows "readFrameAndTypePositionsFromFile bufSize cancel (Some bytes) st =
           Some (Ok (st' \<lparr> startEndFrame := (0, maxPOC st'),
                           chartStatSource := statSource st' \<rparr>))"
proof -
  from scan_to_end [OF assms(1,2), of bytes st] obtain r
    where r: "scanChunks bufSize cancel bytes 0 (st, scanLocals0) = Some r"
      and rel: "rel_outcome sameScan r (Ok (st', loc'))"
    using assms(3) by auto
  from rel obtain s2 where "r = Ok s2" and "fst s2 = st'"
    by (cases r) (auto simp: sameScan_def)
  with r show ?thesis
    by (simp add: readFrameAndTypePositionsFromFile_def)
qed

lemma indexRecord_parsingError:
  "s' \<in> set_outcome (indexRecord poc typeID s) \<Longrightarrow> parsingError (fst s') = parsingError (fst s)"
  by (cases s) (auto simp: indexRecord_def Let_def split: if_splits option.splits)

lemma processLine_parsingError:
  "s' \<in> set_outcome (processLine s) \<Longrightarrow> parsingError (fst s') = parsingError (fst s)"
  using indexRecord_parsingError
  by (auto simp: processLine_def Let_def split: if_splits option.splits)

lemma scanBuffer_parsingError:
  "s' \<in> set_outcome (scanBuffer i cs s) \<Longrightarrow> parsingError (fst s') = parsingError (fst s)"
proof (induction cs arbitrary: i s)
  case Nil
  then show ?case by simp
next
  case (Cons c cs)
  show ?case
  proof (cases "c = CHR 0x0A")
    case False
    with Cons.prems
      Cons.IH [of "Suc i" "(fst s, (snd s) \<lparr> lineBuffer := lineBuffer (snd s) @ [c] \<rparr>)"]
    show ?thesis by simp
  next
    case True
    let ?p = "if lineBuffer (snd s) \<noteq> [] then processLine s else Ok s"
    have keep: "\<And>s1. s1 \<in> set_outcome ?p \<Longrightarrow> parsingError (fst s1) = parsingError (fst s)"
      using processLine_parsingError by (auto split: if_splits)
    show ?thesis
    proof (cases ?p)
      case (Ok s1)
      let ?s2 = "(fst s1, (snd s1) \<lparr> lineBuffer := [],
                   lineBufferStartPos := bufferStartPos (snd s1) + int i + 1 \<rparr>)"
      have "parsingError (fst s1) = parsingError (fst s)" using Ok by (intro keep) simp
      moreover have "s' \<in> set_outcome (scanBuffer (Suc i) cs ?s2)"
        using Cons.prems True Ok by simp
      ultimately show ?thesis
        using Cons.IH [of "Suc i" ?s2] by simp
    next
      case (Throw m s1)
      with True Cons.prems have "s' = s1" by simp
      with keep [of s1] Throw show ?thesis by simp
    next
      case Crash
      with True Cons.prems show ?thesis by simp
    qed
  qed
qed

lemma parseCSVLine_empty: "parseCSVLine [] d = [[]]"
  by (simp add: parseCSVLine_def trimmed_def)

section \<open>The indexer: cancellation between two chunks\<close>

text \<open>
  C7. The cancel flag is read as not set before each of the first \<open>k\<close> chunks and as set
  after them, the file has these \<open>k\<close> full chunks, and their bytes are scanned without
  an error. Then the scan completes: the index and the layout flag are the ones the scan
  of the bytes of these \<open>k\<close> chunks has built, and \<open>parsingError\<close> is what it was before
  the scan.
\<close>

theorem cancel_between_chunks:
  assumes "k * bufSize \<le> length bytes"
    and "\<forall>j<k. \<not> cancel j" and "cancel k"
    and "scanBuffer 0 (take (k * bufSize) bytes) (st, scanLocals0) = Ok (st', loc')"
  shows "readFrameAndTypePositionsFromFile bufSize cancel (Some bytes) st =
           Some (Ok (st' \<lparr> startEndFrame := (0, maxPOC st'),
                           chartStatSource := statSource st' \<rparr>))
         \<and> parsingError st' = parsingError st"
proof
  from scan_canceled [OF assms(1-3), of st] obtain r
    where r: "scanChunks bufSize cancel bytes 0 (st, scanLocals0) = Some r"
      and rel: "rel_outcome sameScan r (Ok (st', loc'))"
    using assms(4) by auto
  from rel obtain s2 where "r = Ok s2" and "fst s2 = st'"
    by (cases r) (auto simp: sameScan_def)
  with r show "readFrameAndTypePositionsFromFile bufSize cancel (Some bytes) st =
           Some (Ok (st' \<lparr> startEndFrame := (0, maxPOC st'),
                           chartStatSource := statSource st' \<rparr>))"
    by (simp add: readFrameAndTypePositionsFromFile_def)
  show "parsingError st' = parsingError st"
    using scanBuffer_parsingError [of "(st', loc')" 0 "take (k * bufSize) bytes" "(st, scanLocals0)"]
      assms(4) by simp
qed

theorem cancel_between_chunks_witness:
  "readFrameAndTypePositionsFromFile 16 cancelAfterTwo (Some exampleBody) freshItem =
     Some (Ok (freshItem \<lparr> fileSortedByPOC := True,
                 pocTypeStartList := [(0, [(1, 0), (2, 16)])] \<rparr>))
   \<and> parsingError (freshItem \<lparr> fileSortedByPOC := True,
                 pocTypeStartList := [(0, [(1, 0), (2, 16)])] \<rparr>) = parsingError freshItem"
proof -
  let ?st' = "freshItem \<lparr> fileSortedByPOC := True, pocTypeStartList := [(0, [(1, 0), (2, 16)])] \<rparr>"
  let ?loc' = "scanLocals0 \<lparr> lineBufferStartPos := 32, lastPOC := 0, lastType := 2,
                 sortingFixed := True \<rparr>"
  have h1: "2 * 16 \<le> length exampleBody" by code_simp
  have h2: "\<forall>j<2. \<not> cancelAfterTwo j" by (simp add: cancelAfterTwo_def)
  have h3: "cancelAfterTwo 2" by (simp add: cancelAfterTwo_def)
  have h4: "scanBuffer 0 (take (2 * 16) exampleBody) (freshItem, scanLocals0) = Ok (?st', ?loc')"
    by code_simp
  have e: "?st' \<lparr> startEndFrame := (0, maxPOC ?st'), chartStatSource := statSource ?st' \<rparr> = ?st'"
    by code_simp
  from cancel_between_chunks [OF h1 h2 h3 h4] e show ?thesis by simp
qed

section \<open>The indexer: a violated continuity\<close>



section \<open>The indexer: the layout mode is decided once\<close>

lemma modeKept_refl: "modeKept s s"
  by (simp add: modeKept_def)

lemma modeKept_trans: "modeKept s s1 \<Longrightarrow> modeKept s1 s2 \<Longrightarrow> modeKept s s2"
  by (auto simp: modeKept_def split: if_splits)

lemma modeKept_flags:
  "sortingFixed (snd s2) = sortingFixed (snd s1) \<Longrightarrow>
   fileSortedByPOC (fst s2) = fileSortedByPOC (fst s1) \<Longrightarrow>
   modeKept s s1 \<Longrightarrow> modeKept s s2"
  by (simp add: modeKept_def)

lemma indexRecord_returns:
  "\<exists>s'. indexRecord poc typeID s = Ok s' \<or> (\<exists>m. indexRecord poc typeID s = Throw m s')"
  by (cases s) (auto simp: indexRecord_def Let_def split: option.splits)

lemma indexRecord_mode:
  assumes "\<not> sortingFixed (snd s)" and "\<not> fileSortedByPOC (fst s)"
    and "s' \<in> set_outcome (indexRecord poc typeID s)"
  shows "layoutMode s' =
           (if lastType (snd s) = - 1 \<and> lastPOC (snd s) = - 1 then Unknown
            else if typeID \<noteq> lastType (snd s) \<and> poc = lastPOC (snd s) then Interleaved
            else if poc \<noteq> lastPOC (snd s) then Sequential
            else Unknown)"
  using assms
  by (cases s) (auto simp: indexRecord_def layoutMode_def Let_def split: if_splits option.splits)

lemma indexRecord_modeKept:
  assumes "s' \<in> set_outcome (indexRecord poc typeID s)"
  shows "modeKept s s'"
  using assms
  by (cases s) (auto simp: indexRecord_def modeKept_def Let_def split: if_splits option.splits)

lemma processLine_modeKept:
  assumes "s' \<in> set_outcome (processLine s)"
  shows "modeKept s s'"
  using assms indexRecord_modeKept
  by (auto simp: processLine_def Let_def modeKept_refl split: if_splits option.splits)

lemma scanBuffer_modeKept:
  "s' \<in> set_outcome (scanBuffer i cs s) \<Longrightarrow> modeKept s s'"
proof (induction cs arbitrary: i s)
  case Nil
  then show ?case by (simp add: modeKept_refl)
next
  case (Cons c cs)
  show ?case
  proof (cases "c = CHR 0x0A")
    case False
    let ?s1 = "(fst s, (snd s) \<lparr> lineBuffer := lineBuffer (snd s) @ [c] \<rparr>)"
    have "modeKept s ?s1" by (simp add: modeKept_def)
    moreover have "modeKept ?s1 s'"
      using False Cons.prems Cons.IH [of "Suc i" ?s1] by simp
    ultimately show ?thesis by (rule modeKept_trans)
  next
    case True
    let ?p = "if lineBuffer (snd s) \<noteq> [] then processLine s else Ok s"
    have keep: "\<And>s1. s1 \<in> set_outcome ?p \<Longrightarrow> modeKept s s1"
      using processLine_modeKept by (auto simp: modeKept_refl split: if_splits)
    show ?thesis
    proof (cases ?p)
      case (Ok s1)
      let ?s2 = "(fst s1, (snd s1) \<lparr> lineBuffer := [],
                   lineBufferStartPos := bufferStartPos (snd s1) + int i + 1 \<rparr>)"
      have "modeKept s s1" using Ok by (intro keep) simp
      then have "modeKept s ?s2" by (rule modeKept_flags [rotated 2]) simp_all
      moreover have "s' \<in> set_outcome (scanBuffer (Suc i) cs ?s2)"
        using Cons.prems True Ok by simp
      then have "modeKept ?s2 s'" by (rule Cons.IH)
      ultimately show ?thesis by (rule modeKept_trans)
    next
      case (Throw m s1)
      with True Cons.prems have "s' = s1" by simp
      with keep [of s1] Throw show ?thesis by simp
    next
      case Crash
      with True Cons.prems show ?thesis by simp
    qed
  qed
qed

lemma scanChunk_modeKept:
  assumes "s' \<in> set_outcome (scanChunk bufSize bytes s)"
  shows "modeKept s s'"
proof -
  let ?buf = "readBytes bytes (bufferStartPos (snd s)) bufSize"
  let ?s1 = "if length ?buf < bufSize then (fst s, (snd s) \<lparr> fileAtEnd := True \<rparr>) else s"
  have m: "modeKept s ?s1" by (simp add: modeKept_def)
  from assms obtain s2 where s2: "s2 \<in> set_outcome (scanBuffer 0 ?buf ?s1)"
    and f: "sortingFixed (snd s') = sortingFixed (snd s2)"
      "fileSortedByPOC (fst s') = fileSortedByPOC (fst s2)"
    by (auto simp: scanChunk_def Let_def split: outcome.splits if_splits)
  from s2 have "modeKept ?s1 s2" by (rule scanBuffer_modeKept)
  with m have "modeKept s s2" by (rule modeKept_trans)
  with f show ?thesis by (rule modeKept_flags)
qed

lemma scanChunks_modeKept:
  assumes "scanChunks bufSize cancel bytes k s = Some r"
  shows "\<forall>s' \<in> set_outcome r. modeKept s s'"
  using assms
proof (induction bufSize cancel bytes k s r rule: scanChunks.raw_induct [rotated 1, consumes 1])
  case (1 scan bufSize cancel bytes k s r)
  note ih = "1"(1) and eq = "1"(2)
  show ?case
  proof (cases "\<not> fileAtEnd (snd s) \<and> \<not> cancel k")
    case False
    with eq have "r = Ok s" by auto
    then show ?thesis by (simp add: modeKept_refl)
  next
    case True
    show ?thesis
    proof (cases "scanChunk bufSize bytes s")
      case (Ok s1)
      with True eq have "scan bufSize cancel bytes (Suc k) s1 = Some r" by simp
      then have a: "\<forall>s' \<in> set_outcome r. modeKept s1 s'"
        by (rule ih)
      have b: "modeKept s s1"
        using Ok by (intro scanChunk_modeKept [of s1 bufSize bytes s]) simp
      from a b show ?thesis using modeKept_trans by blast
    next
      case (Throw m s1)
      with True eq have r: "r = Throw m s1" by simp
      have "modeKept s s1"
        using Throw by (intro scanChunk_modeKept [of s1 bufSize bytes s]) simp
      with r show ?thesis by simp
    next
      case Crash
      with True eq have "r = Crash" by simp
      then show ?thesis by simp
    qed
  qed
qed

text \<open>
  C9, as the code has it. A data line read while \<open>sortingFixed\<close> and \<open>fileSortedByPOC\<close>
  are not set is indexed or thrown, it never dies, and the layout mode after it is:
  Unknown for the first data line (\<open>lastPOC\<close> and \<open>lastType\<close> both \<open>-1\<close>) and for a line
  with the POC and typeID of the line before; Interleaved for a line with the POC of the
  line before and another typeID; Sequential for a line with another POC, whether a POC
  and typeID seen before comes back or not. From any state, whatever bytes the rest of
  a buffer and the rest of the scan hold and whatever the buffer size is, every state
  reached (at the end, or where a message is thrown) has \<open>sortingFixed\<close> set and
  \<open>fileSortedByPOC\<close> unchanged if \<open>sortingFixed\<close> was set; and as long as \<open>sortingFixed\<close>
  is not set, a \<open>fileSortedByPOC\<close> that was not set, as the constructor leaves it, is
  not set.
\<close>

theorem layout_decided_once:
  "(\<not> sortingFixed (snd s) \<and> \<not> fileSortedByPOC (fst s) \<longrightarrow>
      (\<exists>s'. (indexRecord poc typeID s = Ok s' \<or> (\<exists>m. indexRecord poc typeID s = Throw m s'))
         \<and> layoutMode s' =
             (if lastType (snd s) = - 1 \<and> lastPOC (snd s) = - 1 then Unknown
              else if typeID \<noteq> lastType (snd s) \<and> poc = lastPOC (snd s) then Interleaved
              else if poc \<noteq> lastPOC (snd s) then Sequential
              else Unknown)))
   \<and> (\<forall>s' \<in> set_outcome (scanBuffer i cs s). modeKept s s')
   \<and> (\<forall>r. scanChunks bufSize cancel bytes k s = Some r \<longrightarrow>
          (\<forall>s' \<in> set_outcome r. modeKept s s'))"
proof (intro conjI impI allI ballI)
  assume u: "\<not> sortingFixed (snd s) \<and> \<not> fileSortedByPOC (fst s)"
  from indexRecord_returns [of poc typeID s] obtain s'
    where r: "indexRecord poc typeID s = Ok s' \<or> (\<exists>m. indexRecord poc typeID s = Throw m s')"
    by blast
  then have "s' \<in> set_outcome (indexRecord poc typeID s)" by auto
  with u r indexRecord_mode [of s s' poc typeID]
  show "\<exists>s'. (indexRecord poc typeID s = Ok s' \<or> (\<exists>m. indexRecord poc typeID s = Throw m s'))
         \<and> layoutMode s' =
             (if lastType (snd s) = - 1 \<and> lastPOC (snd s) = - 1 then Unknown
              else if typeID \<noteq> lastType (snd s) \<and> poc = lastPOC (snd s) then Interleaved
              else if poc \<noteq> lastPOC (snd s) then Sequential
              else Unknown)"
    by blast
next
  fix s' assume "s' \<in> set_outcome (scanBuffer i cs s)"
  then show "modeKept s s'" by (rule scanBuffer_modeKept)
next
  fix r s' assume "scanChunks bufSize cancel bytes k s = Some r" and "s' \<in> set_outcome r"
  then show "modeKept s s'" using scanChunks_modeKept by blast
qed

theorem layout_decided_once_witness:
  "scanBuffer 0 (take 16 exampleBody) (freshItem, scanLocals0) = Ok firstLineRead
   \<and> layoutMode firstLineRead = Unknown
   \<and> (\<exists>s'. indexRecord 0 2 firstLineRead = Ok s' \<and> layoutMode s' = Interleaved)
   \<and> (\<exists>s'. indexRecord 1 1 firstLineRead = Ok s' \<and> layoutMode s' = Sequential)
   \<and> (\<exists>s'. scanBuffer 46 (''2;0;0;8;8;1;9'' @ [CHR 0x0A] @ ''3;0;0;8;8;1;9'' @ [CHR 0x0A])
               (exampleItem, exampleLocals) = Ok s'
            \<and> sortingFixed (snd s') \<and> fileSortedByPOC (fst s'))"
proof -
  let ?cs = "''2;0;0;8;8;1;9'' @ [CHR 0x0A] @ ''3;0;0;8;8;1;9'' @ [CHR 0x0A]"
  let ?a = "(freshItem \<lparr> fileSortedByPOC := True, pocTypeStartList := [(0, [(1, 0), (2, 16)])] \<rparr>,
             scanLocals0 \<lparr> lineBufferStartPos := 16, lastPOC := 0, lastType := 2,
               sortingFixed := True \<rparr>)"
  let ?b = "(freshItem \<lparr> maxPOC := 1, pocTypeStartList := [(0, [(1, 0)]), (1, [(1, 16)])] \<rparr>,
             scanLocals0 \<lparr> lineBufferStartPos := 16, lastPOC := 1, lastType := 1,
               sortingFixed := True \<rparr>)"
  let ?c = "(exampleItem \<lparr> maxPOC := 3, pocTypeStartList :=
                 [(0, [(1, 0), (2, 16)]), (1, [(1, 32)]), (2, [(1, 46)]), (3, [(1, 60)])] \<rparr>,
              exampleLocals \<lparr> lineBufferStartPos := 74, lastPOC := 3 \<rparr>)"
  have first: "scanBuffer 0 (take 16 exampleBody) (freshItem, scanLocals0) = Ok firstLineRead"
    by code_simp
  have u: "\<not> sortingFixed (snd firstLineRead)" "\<not> fileSortedByPOC (fst firstLineRead)"
    "lastPOC (snd firstLineRead) = 0" "lastType (snd firstLineRead) = 1"
    by code_simp+
  have m: "layoutMode firstLineRead = Unknown" by code_simp
  have a: "indexRecord 0 2 firstLineRead = Ok ?a" by code_simp
  have b: "indexRecord 1 1 firstLineRead = Ok ?b" by code_simp
  have c: "scanBuffer 46 ?cs (exampleItem, exampleLocals) = Ok ?c" by code_simp
  have d: "sortingFixed (snd (exampleItem, exampleLocals))"
    "fileSortedByPOC (fst (exampleItem, exampleLocals))" by code_simp+
  from layout_decided_once [of firstLineRead 0 2 0 "[]" 0 neverCancel "[]" 0] u a
  have "layoutMode ?a = Interleaved" by simp
  moreover from layout_decided_once [of firstLineRead 1 1 0 "[]" 0 neverCancel "[]" 0] u b
  have "layoutMode ?b = Sequential" by simp
  moreover from layout_decided_once [of "(exampleItem, exampleLocals)" 0 0 46 ?cs 0 neverCancel "[]" 0] c
  have "modeKept (exampleItem, exampleLocals) ?c" by simp
  with d have "sortingFixed (snd ?c) \<and> fileSortedByPOC (fst ?c)"
    unfolding modeKept_def by blast
  ultimately show ?thesis using first m a b c by simp
qed

text \<open>
  Three data lines (POC 0, type 1), (POC 1, type 2), (POC 1, type 3): no pair and no
  typeID comes back. The mode is Sequential after the second line, and the third line,
  with the POC of the second and another typeID, leaves it so.
\<close>

theorem lone_poc_change_fixes_sequential:
  "distinct (map recordOf unrepeatedLines)
   \<and> distinct (map snd (map recordOf unrepeatedLines))
   \<and> map_outcome layoutMode
       (scanBuffer 0 (fileOfLines (take 2 unrepeatedLines)) (freshItem, scanLocals0))
       = Ok Sequential
   \<and> map_outcome layoutMode
       (scanBuffer 0 (fileOfLines unrepeatedLines) (freshItem, scanLocals0))
       = Ok Sequential"
  by code_simp

section \<open>The indexer: a body whose pairs of POC and typeID are contiguous\<close>

lemma indexedOffset_setStart:
  "indexedOffset (setStart p t pos idx) p' t' =
     (if p' = p \<and> t' = t then Some pos else indexedOffset idx p' t')"
  by (auto simp: indexedOffset_def setStart_def map_of_qinsert qvalue_def split: option.splits)

lemma qcontains_setStart:
  "qcontains (setStart p t pos idx) p' \<longleftrightarrow> p' = p \<or> qcontains idx p'"
  by (simp add: qcontains_def setStart_def map_of_qinsert)

lemma touchPOC_present: "qcontains idx p \<Longrightarrow> touchPOC p idx = idx"
  by (simp add: touchPOC_def)

lemma qcontains_types: "qcontains (qvalue idx p) t \<longleftrightarrow> indexedOffset idx p t \<noteq> None"
  by (auto simp: qcontains_def qvalue_def indexedOffset_def split: option.splits)

lemma remdups_adj_snoc:
  "xs \<noteq> [] \<Longrightarrow> remdups_adj (xs @ [x]) = remdups_adj xs @ (if last xs = x then [] else [x])"
proof -
  assume "xs \<noteq> []"
  then obtain ys y where xs: "xs = ys @ [y]" by (metis append_butlast_last_id)
  show ?thesis
    unfolding xs using remdups_adj_append_two [of ys y x] by simp
qed

lemma runs_prefix: "distinct (remdups_adj (xs @ [x])) \<Longrightarrow> distinct (remdups_adj xs)"
  by (cases "xs = []") (auto simp: remdups_adj_snoc split: if_splits)

lemma runs_fresh:
  "distinct (remdups_adj (xs @ [x])) \<Longrightarrow> xs \<noteq> [] \<Longrightarrow> x \<noteq> last xs \<Longrightarrow> x \<notin> set xs"
  by (auto simp: remdups_adj_snoc)

lemma pocChangesFirst_snoc:
  "rs \<noteq> [] \<Longrightarrow>
   pocChangesFirst (rs @ [r]) =
     (if \<exists>x \<in> set rs. x \<noteq> hd rs then pocChangesFirst rs
      else r = hd rs \<or> fst r \<noteq> fst (hd rs))"
  by (auto simp: pocChangesFirst_def dropWhile_append split: list.splits)

lemma pocChangesFirst_constant: "\<forall>x \<in> set rs. x = hd rs \<Longrightarrow> pocChangesFirst rs"
proof -
  assume "\<forall>x \<in> set rs. x = hd rs"
  then have "dropWhile (\<lambda>r. r = hd rs) rs = []" by simp
  then show ?thesis by (simp only: pocChangesFirst_def list.case)
qed

lemma constant_last: "rs \<noteq> [] \<Longrightarrow> \<forall>x \<in> set rs. x = hd rs \<Longrightarrow> last rs = hd rs"
  by simp

lemma pocChangesFirst_prefix: "pocChangesFirst (rs @ [r]) \<Longrightarrow> pocChangesFirst rs"
proof (cases "rs = []")
  case True
  then show ?thesis by (simp add: pocChangesFirst_def)
next
  case False
  assume a: "pocChangesFirst (rs @ [r])"
  show ?thesis
  proof (cases "\<exists>x \<in> set rs. x \<noteq> hd rs")
    case True
    with a False show ?thesis by (simp add: pocChangesFirst_snoc)
  next
    case no: False
    then show ?thesis by (intro pocChangesFirst_constant) simp
  qed
qed

lemma first_offsets_snoc:
  assumes len: "length offs = length rs"
  shows "map_of (zip (rs @ [r]) (offs @ [pos])) k =
     (if k \<in> set rs then map_of (zip rs offs) k else if k = r then Some pos else None)"
proof -
  have z: "zip (rs @ [r]) (offs @ [pos]) = zip rs offs @ [(r, pos)]"
    using len by simp
  show ?thesis
  proof (cases "map_of (zip rs offs) k")
    case None
    then have "k \<notin> set rs" using len by (simp add: map_of_zip_is_None)
    moreover have "map_of (zip (rs @ [r]) (offs @ [pos])) k = (if k = r then Some pos else None)"
      unfolding z map_of_append map_add_def None by simp
    ultimately show ?thesis by simp
  next
    case (Some v)
    then have "k \<in> set rs" using len by (metis map_of_zip_is_None option.distinct(1))
    moreover have "map_of (zip (rs @ [r]) (offs @ [pos])) k = Some v"
      unfolding z map_of_append map_add_def Some by simp
    ultimately show ?thesis using Some by simp
  qed
qed

lemma fileOfLines_snoc: "fileOfLines (ls @ [l]) = fileOfLines ls @ l @ [CHR 0x0A]"
  by (simp add: fileOfLines_def)

lemma indexRecord_first:
  assumes inv: "scanInv [] [] (st, loc)"
  shows "\<exists>st' loc'. indexRecord p t (st, loc) = Ok (st', loc')
           \<and> scanInv [(p, t)] [lineBufferStartPos loc] (st', loc')"
proof -
  from inv have l: "lastPOC loc = - 1" "lastType loc = - 1"
    and idx: "\<forall>p t. indexedOffset (pocTypeStartList st) p t = None"
    and dom: "\<forall>p. \<not> qcontains (pocTypeStartList st) p"
    and fixed: "\<not> sortingFixed loc" and mode: "\<not> fileSortedByPOC st"
    by (simp_all add: scanInv_def pocChangesFirst_def)
  let ?st' = "st \<lparr> pocTypeStartList := setStart p t (lineBufferStartPos loc) (pocTypeStartList st),
                  maxPOC := (if p > maxPOC st then p else maxPOC st) \<rparr>"
  let ?loc' = "loc \<lparr> lastType := t, lastPOC := p \<rparr>"
  have "indexRecord p t (st, loc) = Ok (?st', ?loc')"
    using l by (simp add: indexRecord_def)
  moreover have "scanInv [(p, t)] [lineBufferStartPos loc] (?st', ?loc')"
    using idx dom fixed mode
    by (simp add: scanInv_def indexedOffset_setStart qcontains_setStart pocChangesFirst_def)
  ultimately show ?thesis by blast
qed

lemma indexRecord_next:
  assumes inv: "scanInv rs offs (st, loc)"
    and ne: "rs \<noteq> []"
    and len: "length offs = length rs"
    and nonneg: "\<forall>x \<in> set rs. 0 \<le> fst x"
    and runs: "distinct (remdups_adj (rs @ [(p, t)]))"
    and order: "pocChangesFirst (rs @ [(p, t)])
                \<or> distinct (remdups_adj (map fst (rs @ [(p, t)])))"
  shows "\<exists>st' loc'. indexRecord p t (st, loc) = Ok (st', loc')
           \<and> scanInv (rs @ [(p, t)]) (offs @ [lineBufferStartPos loc]) (st', loc')"
proof -
  let ?r = "(p, t)" and ?pos = "lineBufferStartPos loc"
  from inv ne have l: "(lastPOC loc, lastType loc) = last rs"
    and idx: "\<And>p t. indexedOffset (pocTypeStartList st) p t = map_of (zip rs offs) (p, t)"
    and dom: "\<And>p. qcontains (pocTypeStartList st) p \<longleftrightarrow> p \<in> fst ` set rs"
    and fixed: "sortingFixed loc \<longleftrightarrow> (\<exists>r \<in> set rs. r \<noteq> hd rs)"
    and mode: "fileSortedByPOC st \<longleftrightarrow> \<not> pocChangesFirst rs"
    by (simp_all add: scanInv_def)
  from ne have "last rs \<in> set rs" by simp
  have lastpoc: "lastPOC loc = fst (last rs)" and lasttype: "lastType loc = snd (last rs)"
    using l by (metis fst_conv, metis snd_conv)
  from \<open>last rs \<in> set rs\<close> nonneg have "0 \<le> fst (last rs)" by blast
  with lastpoc have notfirst: "lastPOC loc \<noteq> - 1" by simp
  have offs: "\<And>r k. map_of (zip (rs @ [r]) (offs @ [?pos])) k =
     (if k \<in> set rs then map_of (zip rs offs) k else if k = r then Some ?pos else None)"
    using len by (rule first_offsets_snoc)
  have absent: "\<And>k. k \<notin> set rs \<Longrightarrow> map_of (zip rs offs) k = None"
    using len by (simp add: map_of_zip_is_None)
  have fresh: "?r \<noteq> last rs \<Longrightarrow> ?r \<notin> set rs"
    using runs ne by (rule runs_fresh)
  have hd': "\<And>r. hd (rs @ [r]) = hd rs"
    using ne by simp
  have first': "\<And>r. pocChangesFirst (rs @ [r]) =
     (if \<exists>x \<in> set rs. x \<noteq> hd rs then pocChangesFirst rs
      else r = hd rs \<or> fst r \<noteq> fst (hd rs))"
    using ne by (rule pocChangesFirst_snoc)
  have const: "\<not> (\<exists>x \<in> set rs. x \<noteq> hd rs) \<Longrightarrow> last rs = hd rs \<and> pocChangesFirst rs"
    using ne pocChangesFirst_constant [of rs] by simp
  consider (same) "?r = last rs" | (type) "?r \<noteq> last rs" "p = fst (last rs)"
    | (poc) "p \<noteq> fst (last rs)" by auto
  then show ?thesis
  proof cases
    case same
    have pt: "p = lastPOC loc" "t = lastType loc"
      using same [symmetric] lastpoc lasttype by simp_all
    have "indexRecord p t (st, loc) = Ok (st, loc)"
      using notfirst pt by (simp add: indexRecord_def)
    moreover have "scanInv (rs @ [?r]) (offs @ [?pos]) (st, loc)"
      unfolding scanInv_def
    proof (intro conjI allI)
      show "if rs @ [?r] = [] then lastPOC (snd (st, loc)) = - 1 \<and> lastType (snd (st, loc)) = - 1
            else (lastPOC (snd (st, loc)), lastType (snd (st, loc))) = last (rs @ [?r])"
        using same l by simp
      show "\<And>p' t'. indexedOffset (pocTypeStartList (fst (st, loc))) p' t'
              = map_of (zip (rs @ [?r]) (offs @ [?pos])) (p', t')"
      proof -
        fix p' t'
        have "?r \<in> set rs" using same \<open>last rs \<in> set rs\<close> by simp
        then have "map_of (zip (rs @ [?r]) (offs @ [?pos])) (p', t')
                     = map_of (zip rs offs) (p', t')"
          unfolding offs using absent by auto
        then show "indexedOffset (pocTypeStartList (fst (st, loc))) p' t'
              = map_of (zip (rs @ [?r]) (offs @ [?pos])) (p', t')"
          by (simp add: idx)
      qed
      show "\<And>p'. qcontains (pocTypeStartList (fst (st, loc))) p' \<longleftrightarrow> p' \<in> fst ` set (rs @ [?r])"
        using same \<open>last rs \<in> set rs\<close> by (auto simp: dom intro: rev_image_eqI)
      show "sortingFixed (snd (st, loc)) \<longleftrightarrow> (\<exists>r \<in> set (rs @ [?r]). r \<noteq> hd (rs @ [?r]))"
      proof -
        have "?r \<in> set rs" using same \<open>last rs \<in> set rs\<close> by simp
        then have "set (rs @ [?r]) = set rs" by auto
        then show ?thesis unfolding hd' by (simp add: fixed)
      qed
      show "fileSortedByPOC (fst (st, loc)) \<longleftrightarrow> \<not> pocChangesFirst (rs @ [?r])"
      proof -
        have "pocChangesFirst (rs @ [?r]) = pocChangesFirst rs"
        proof (cases "\<exists>x \<in> set rs. x \<noteq> hd rs")
          case True
          then show ?thesis unfolding first' by simp
        next
          case False
          with const have c: "last rs = hd rs" "pocChangesFirst rs" by simp_all
          from same c(1) have "?r = hd rs" by simp
          with False c(2) show ?thesis unfolding first' by simp
        qed
        then show ?thesis by (simp add: mode)
      qed
    qed
    ultimately show ?thesis by blast
  next
    case type
    then have pt: "p = lastPOC loc" "t \<noteq> lastType loc"
      using lastpoc lasttype by (auto simp: prod_eq_iff)
    from type fresh have new: "?r \<notin> set rs" by simp
    have present: "qcontains (pocTypeStartList st) p"
      using type(2) \<open>last rs \<in> set rs\<close> by (auto simp: dom)
    let ?st1 = "if \<not> sortingFixed loc then st \<lparr> fileSortedByPOC := True \<rparr> else st"
    let ?st' = "?st1 \<lparr> pocTypeStartList := setStart p t ?pos (pocTypeStartList st) \<rparr>"
    let ?loc' = "(if \<not> sortingFixed loc then loc \<lparr> sortingFixed := True \<rparr> else loc)
                   \<lparr> lastType := t \<rparr>"
    have none: "indexedOffset (pocTypeStartList st) p t = None"
      using new absent by (simp add: idx)
    have "indexRecord p t (st, loc) = Ok (?st', ?loc')"
      using notfirst pt present none
      by (simp add: indexRecord_def Let_def touchPOC_present qcontains_types)
    moreover have "scanInv (rs @ [?r]) (offs @ [?pos]) (?st', ?loc')"
      unfolding scanInv_def
    proof (intro conjI allI)
      show "if rs @ [?r] = [] then lastPOC (snd (?st', ?loc')) = - 1 \<and> lastType (snd (?st', ?loc')) = - 1
            else (lastPOC (snd (?st', ?loc')), lastType (snd (?st', ?loc'))) = last (rs @ [?r])"
        using pt by simp
      show "\<And>p' t'. indexedOffset (pocTypeStartList (fst (?st', ?loc'))) p' t'
              = map_of (zip (rs @ [?r]) (offs @ [?pos])) (p', t')"
        using new absent by (auto simp: offs idx indexedOffset_setStart)
      show "\<And>p'. qcontains (pocTypeStartList (fst (?st', ?loc'))) p' \<longleftrightarrow> p' \<in> fst ` set (rs @ [?r])"
        using present by (auto simp: dom qcontains_setStart)
      show "sortingFixed (snd (?st', ?loc')) \<longleftrightarrow> (\<exists>r \<in> set (rs @ [?r]). r \<noteq> hd (rs @ [?r]))"
        using type(1) const by (auto simp: fixed hd')
      show "fileSortedByPOC (fst (?st', ?loc')) \<longleftrightarrow> \<not> pocChangesFirst (rs @ [?r])"
        using type const by (auto simp: mode fixed first')
    qed
    ultimately show ?thesis by blast
  next
    case poc
    then have pt: "p \<noteq> lastPOC loc" using lastpoc by simp
    from poc have "?r \<noteq> last rs" by (metis fst_conv)
    with fresh have new: "?r \<notin> set rs" by simp
    have none: "indexedOffset (pocTypeStartList st) p t = None"
      using new absent by (simp add: idx)
    have unseen: "fileSortedByPOC st \<Longrightarrow> \<not> qcontains (pocTypeStartList st) p"
    proof -
      assume "fileSortedByPOC st"
      then have "\<not> pocChangesFirst (rs @ [?r])"
        using mode pocChangesFirst_prefix by blast
      with order have "distinct (remdups_adj (map fst rs @ [p]))" by simp
      moreover have "p \<noteq> last (map fst rs)" using poc ne by (simp add: last_map)
      ultimately have "p \<notin> set (map fst rs)" using ne by (intro runs_fresh) simp_all
      then show ?thesis by (simp add: dom)
    qed
    let ?st' = "st \<lparr> pocTypeStartList := setStart p t ?pos (pocTypeStartList st),
                    maxPOC := (if p > maxPOC st then p else maxPOC st) \<rparr>"
    let ?loc' = "(if \<not> sortingFixed loc then loc \<lparr> sortingFixed := True \<rparr> else loc)
                   \<lparr> lastPOC := p, lastType := t \<rparr>"
    have "indexRecord p t (st, loc) = Ok (?st', ?loc')"
      using notfirst pt none unseen
      by (auto simp: indexRecord_def Let_def qcontains_types)
    moreover have "scanInv (rs @ [?r]) (offs @ [?pos]) (?st', ?loc')"
      unfolding scanInv_def
    proof (intro conjI allI)
      show "if rs @ [?r] = [] then lastPOC (snd (?st', ?loc')) = - 1 \<and> lastType (snd (?st', ?loc')) = - 1
            else (lastPOC (snd (?st', ?loc')), lastType (snd (?st', ?loc'))) = last (rs @ [?r])"
        by simp
      show "\<And>p' t'. indexedOffset (pocTypeStartList (fst (?st', ?loc'))) p' t'
              = map_of (zip (rs @ [?r]) (offs @ [?pos])) (p', t')"
        using new absent by (auto simp: offs idx indexedOffset_setStart)
      show "\<And>p'. qcontains (pocTypeStartList (fst (?st', ?loc'))) p' \<longleftrightarrow> p' \<in> fst ` set (rs @ [?r])"
        by (auto simp: dom qcontains_setStart)
      have other: "\<forall>x \<in> set rs. x = hd rs \<Longrightarrow> ?r \<noteq> hd rs \<and> p \<noteq> fst (hd rs)"
        using poc const \<open>?r \<noteq> last rs\<close> by auto
      show "sortingFixed (snd (?st', ?loc')) \<longleftrightarrow> (\<exists>r \<in> set (rs @ [?r]). r \<noteq> hd (rs @ [?r]))"
        using other by (auto simp: fixed hd')
      show "fileSortedByPOC (fst (?st', ?loc')) \<longleftrightarrow> \<not> pocChangesFirst (rs @ [?r])"
        using other const by (auto simp: mode fixed first')
    qed
    ultimately show ?thesis by blast
  qed
qed

lemma scanInv_line:
  "scanInv rs offs (st, loc \<lparr> lineBuffer := b \<rparr>) = scanInv rs offs (st, loc)"
  "scanInv rs offs (st, loc \<lparr> lineBuffer := b, lineBufferStartPos := n \<rparr>) = scanInv rs offs (st, loc)"
  by (simp_all add: scanInv_def)

lemma indexRecord_step:
  assumes inv: "scanInv rs offs (st, loc)"
    and len: "length offs = length rs"
    and nonneg: "\<forall>x \<in> set rs. 0 \<le> fst x"
    and runs: "distinct (remdups_adj (rs @ [(p, t)]))"
    and order: "pocChangesFirst (rs @ [(p, t)])
                \<or> distinct (remdups_adj (map fst (rs @ [(p, t)])))"
  shows "\<exists>st' loc'. indexRecord p t (st, loc) = Ok (st', loc')
           \<and> scanInv (rs @ [(p, t)]) (offs @ [lineBufferStartPos loc]) (st', loc')"
proof (cases "rs = []")
  case True
  with inv len indexRecord_first [of st loc p t] show ?thesis by simp
next
  case False
  with assms show ?thesis by (intro indexRecord_next)
qed

lemma processLine_data:
  assumes "dataLine l" and "lineBuffer loc = l" and "recordOf l = (p, t)"
  shows "processLine (st, loc) = indexRecord p t (st, loc)"
  using assms
  by (auto simp: processLine_def dataLine_def recordOf_def Let_def fld_def)

lemma dataLine_nonempty: "dataLine l \<Longrightarrow> l \<noteq> []"
  by (auto simp: dataLine_def parseCSVLine_empty Let_def)

lemma dataRecords_snoc:
  "dataRecords b (ls @ [l]) =
     dataRecords b ls
       @ (if dataLine l then [(recordOf l, b + int (length (fileOfLines ls)))] else [])"
  by (induction ls arbitrary: b) (simp_all add: fileOfLines_def)

lemma dataRecords_records:
  "map fst (dataRecords b ls) = map recordOf (filter dataLine ls)"
  by (induction ls arbitrary: b) simp_all

lemma skipped_not_data: "skippedLine l \<Longrightarrow> \<not> dataLine l"
  by (auto simp: skippedLine_def dataLine_def Let_def parseCSVLine_empty)

lemma processLine_skipped:
  assumes "skippedLine l" and "l \<noteq> []" and "lineBuffer loc = l"
  shows "processLine (st, loc) = Ok (st, loc)"
  using assms by (auto simp: processLine_def skippedLine_def Let_def fld_first)

lemma scan_file_lines:
  assumes init: "pocTypeStartList st = []" "\<not> fileSortedByPOC st"
  shows "\<forall>l \<in> set ls. skippedLine l \<or> dataLine l \<and> 0 \<le> fst (recordOf l) \<Longrightarrow>
         distinct (remdups_adj (map fst (dataRecords 0 ls))) \<Longrightarrow>
         pocChangesFirst (map fst (dataRecords 0 ls))
           \<or> distinct (remdups_adj (map fst (map fst (dataRecords 0 ls)))) \<Longrightarrow>
         \<exists>st' loc'. scanBuffer 0 (fileOfLines ls) (st, scanLocals0) = Ok (st', loc')
           \<and> scanInv (map fst (dataRecords 0 ls)) (map snd (dataRecords 0 ls)) (st', loc')
           \<and> lineBuffer loc' = []
           \<and> lineBufferStartPos loc' = int (length (fileOfLines ls))
           \<and> bufferStartPos loc' = 0"
proof (induction ls rule: rev_induct)
  case Nil
  have "scanInv [] [] (st, scanLocals0)"
    using init
    by (simp add: scanInv_def scanLocals0_def INT_INVALID_def indexedOffset_def qcontains_def
        pocChangesFirst_def)
  then show ?case by (simp add: fileOfLines_def scanLocals0_def)
next
  case (snoc l ls)
  let ?rs = "map fst (dataRecords 0 ls)" and ?offs = "map snd (dataRecords 0 ls)"
  let ?n = "length (fileOfLines ls)"
  from snoc.prems(1)
  have lines: "\<forall>l \<in> set ls. skippedLine l \<or> dataLine l \<and> 0 \<le> fst (recordOf l)"
    and l: "skippedLine l \<or> dataLine l \<and> 0 \<le> fst (recordOf l)" by simp_all
  have nl: "CHR 0x0A \<notin> set l" using l by (auto simp: dataLine_def skippedLine_def)
  show ?case
  proof (cases "dataLine l")
    case True
    obtain p t where pt: "recordOf l = (p, t)" by (cases "recordOf l")
    have rs': "map fst (dataRecords 0 (ls @ [l])) = ?rs @ [(p, t)]"
      and offs': "map snd (dataRecords 0 (ls @ [l])) = ?offs @ [int ?n]"
      using True pt by (simp_all add: dataRecords_snoc)
    from snoc.prems(2) have runs': "distinct (remdups_adj (?rs @ [(p, t)]))"
      unfolding rs' .
    then have runs: "distinct (remdups_adj ?rs)" by (rule runs_prefix)
    from snoc.prems(3) have order': "pocChangesFirst (?rs @ [(p, t)])
        \<or> distinct (remdups_adj (map fst (?rs @ [(p, t)])))"
      unfolding rs' .
    then have order: "pocChangesFirst ?rs \<or> distinct (remdups_adj (map fst ?rs))"
      using pocChangesFirst_prefix [of ?rs "(p, t)"] runs_prefix [of "map fst ?rs" p] by auto
    from snoc.IH [OF lines runs order] obtain st1 loc1
      where scan1: "scanBuffer 0 (fileOfLines ls) (st, scanLocals0) = Ok (st1, loc1)"
        and inv1: "scanInv ?rs ?offs (st1, loc1)"
        and lb: "lineBuffer loc1 = []"
        and pos: "lineBufferStartPos loc1 = int ?n"
        and buf: "bufferStartPos loc1 = 0"
      by blast
    let ?loc = "loc1 \<lparr> lineBuffer := l \<rparr>"
    have "scanInv ?rs ?offs (st1, ?loc)"
      using inv1 by (simp add: scanInv_line)
    moreover have "length ?offs = length ?rs" by simp
    moreover have "\<forall>x \<in> set ?rs. 0 \<le> fst x"
      using lines skipped_not_data by (auto simp: dataRecords_records)
    ultimately obtain st2 loc2
      where step: "indexRecord p t (st1, ?loc) = Ok (st2, loc2)"
        and inv2: "scanInv (?rs @ [(p, t)]) (?offs @ [lineBufferStartPos ?loc]) (st2, loc2)"
      using indexRecord_step [OF _ _ _ runs' order'] by blast
    have pl: "processLine (st1, ?loc) = Ok (st2, loc2)"
      using processLine_data [OF True _ pt, of ?loc st1] step by simp
    from indexRecord_frame [OF step] buf have buf2: "bufferStartPos loc2 = 0" by simp
    let ?loc' = "loc2 \<lparr> lineBuffer := [],
                   lineBufferStartPos := bufferStartPos loc2 + int (?n + length l) + 1 \<rparr>"
    have "scanBuffer 0 (fileOfLines (ls @ [l])) (st, scanLocals0)
            = scanBuffer ?n (l @ CHR 0x0A # []) (st1, loc1)"
      using scan1 by (simp add: fileOfLines_snoc scanBuffer_append)
    also have "\<dots> = Ok (st2, ?loc')"
      using lb pl dataLine_nonempty [OF True] by (simp add: scanBuffer_line [OF nl])
    finally have scan: "scanBuffer 0 (fileOfLines (ls @ [l])) (st, scanLocals0) = Ok (st2, ?loc')" .
    have "scanInv (map fst (dataRecords 0 (ls @ [l]))) (map snd (dataRecords 0 (ls @ [l])))
            (st2, ?loc')"
      unfolding rs' offs' using inv2 pos by (simp add: scanInv_line)
    moreover have "lineBufferStartPos ?loc' = int (length (fileOfLines (ls @ [l])))"
      using buf2 by (simp add: fileOfLines_snoc)
    ultimately show ?thesis using scan buf2 by simp
  next
    case False
    with l have sk: "skippedLine l" by simp
    have same: "dataRecords 0 (ls @ [l]) = dataRecords 0 ls"
      using False by (simp add: dataRecords_snoc)
    from snoc.prems(2,3) have runs: "distinct (remdups_adj ?rs)"
      and order: "pocChangesFirst ?rs \<or> distinct (remdups_adj (map fst ?rs))"
      unfolding same by simp_all
    from snoc.IH [OF lines runs order] obtain st1 loc1
      where scan1: "scanBuffer 0 (fileOfLines ls) (st, scanLocals0) = Ok (st1, loc1)"
        and inv1: "scanInv ?rs ?offs (st1, loc1)"
        and lb: "lineBuffer loc1 = []"
        and pos: "lineBufferStartPos loc1 = int ?n"
        and buf: "bufferStartPos loc1 = 0"
      by blast
    let ?loc' = "loc1 \<lparr> lineBuffer := [],
                   lineBufferStartPos := bufferStartPos loc1 + int (?n + length l) + 1 \<rparr>"
    have "scanBuffer 0 (fileOfLines (ls @ [l])) (st, scanLocals0)
            = scanBuffer ?n (l @ CHR 0x0A # []) (st1, loc1)"
      using scan1 by (simp add: fileOfLines_snoc scanBuffer_append)
    also have "\<dots> = Ok (st1, ?loc')"
    proof (cases "l = []")
      case True
      then show ?thesis using lb by simp
    next
      case False
      have "processLine (st1, loc1 \<lparr> lineBuffer := l \<rparr>) = Ok (st1, loc1 \<lparr> lineBuffer := l \<rparr>)"
        using sk False by (rule processLine_skipped) simp
      then show ?thesis using lb False by (simp add: scanBuffer_line [OF nl])
    qed
    finally have scan: "scanBuffer 0 (fileOfLines (ls @ [l])) (st, scanLocals0) = Ok (st1, ?loc')" .
    have "scanInv (map fst (dataRecords 0 (ls @ [l]))) (map snd (dataRecords 0 (ls @ [l])))
            (st1, ?loc')"
      unfolding same using inv1 by (simp add: scanInv_line)
    moreover have "lineBufferStartPos ?loc' = int (length (fileOfLines (ls @ [l])))"
      using buf by (simp add: fileOfLines_snoc)
    ultimately show ?thesis using scan buf by simp
  qed
qed

text \<open>
  C5, as the code has it. The file is made of lines, each ended by a newline, the last
  one included. Each line is passed over by the indexer (an empty line, a line whose
  first field is empty or starts with \<open>%\<close>) or is a data line with a POC that is not
  negative. The data lines of each pair of POC and typeID are contiguous (lines passed
  over apart), and either the first data line that differs from the first one differs
  in its POC, or the data lines of each POC are contiguous as well. The object has an
  empty index and \<open>fileSortedByPOC\<close> not set. Then the scan to the end of the file, with
  a buffer of any size but 0, completes without an error, and the index records, for each pair of
  the file and for no other pair, the offset of the first data line of the pair. At the
  end of the scan the layout mode is Unknown if all data lines have the same POC and
  typeID, Sequential if the first data line that differs from the first one differs in
  its POC, and Interleaved if it has the POC of the first one and another typeID;
  \<open>fileSortedByPOC\<close> is set in the last case only.
\<close>

theorem first_offsets_indexed:
  assumes "0 < bufSize" and "\<forall>k. \<not> cancel k"
    and "\<forall>l \<in> set ls. skippedLine l \<or> dataLine l \<and> 0 \<le> fst (recordOf l)"
    and "rs = map fst (dataRecords 0 ls)"
    and "distinct (remdups_adj rs)"
    and "pocChangesFirst rs \<or> distinct (remdups_adj (map fst rs))"
    and "pocTypeStartList st = []" and "\<not> fileSortedByPOC st"
  shows "\<exists>s'. scanChunks bufSize cancel (fileOfLines ls) 0 (st, scanLocals0) = Some (Ok s')
           \<and> readFrameAndTypePositionsFromFile bufSize cancel (Some (fileOfLines ls)) st
               = Some (Ok ((fst s') \<lparr> startEndFrame := (0, maxPOC (fst s')),
                                      chartStatSource := statSource (fst s') \<rparr>))
           \<and> parsingError (fst s') = parsingError st
           \<and> layoutMode s' =
               (if \<forall>r \<in> set rs. r = hd rs then Unknown
                else if pocChangesFirst rs then Sequential else Interleaved)
           \<and> (fileSortedByPOC (fst s') \<longleftrightarrow> \<not> pocChangesFirst rs)
           \<and> (\<forall>p t. indexedOffset (pocTypeStartList (fst s')) p t
                      = map_of (dataRecords 0 ls) (p, t))"
proof -
  from scan_file_lines [OF assms(7,8,3) assms(5,6) [unfolded assms(4)]] obtain st1 loc1
    where scan: "scanBuffer 0 (fileOfLines ls) (st, scanLocals0) = Ok (st1, loc1)"
      and inv: "scanInv rs (map snd (dataRecords 0 ls)) (st1, loc1)"
    unfolding assms(4) by blast
  from scan_to_end [OF assms(1,2), of "fileOfLines ls" st] obtain r
    where r: "scanChunks bufSize cancel (fileOfLines ls) 0 (st, scanLocals0) = Some r"
      and rel: "rel_outcome sameScan r (Ok (st1, loc1))"
    using scan by auto
  from rel obtain s2 where r2: "r = Ok s2" and same: "sameScan s2 (st1, loc1)"
    by (cases r) auto
  from same have f: "fst s2 = st1" and sf: "sortingFixed (snd s2) = sortingFixed loc1"
    by (simp_all add: sameScan_def)
  from r r2 have run: "readFrameAndTypePositionsFromFile bufSize cancel (Some (fileOfLines ls)) st
      = Some (Ok ((fst s2) \<lparr> startEndFrame := (0, maxPOC (fst s2)),
                             chartStatSource := statSource (fst s2) \<rparr>))"
    by (simp add: readFrameAndTypePositionsFromFile_def)
  have err: "parsingError (fst s2) = parsingError st"
    using scanBuffer_parsingError [of "(st1, loc1)" 0 "fileOfLines ls" "(st, scanLocals0)"] scan f
    by simp
  have z: "zip rs (map snd (dataRecords 0 ls)) = dataRecords 0 ls"
    unfolding assms(4) by (rule zip_map_fst_snd)
  from inv have fixed: "sortingFixed loc1 \<longleftrightarrow> (\<exists>r \<in> set rs. r \<noteq> hd rs)"
    and sorted: "fileSortedByPOC st1 \<longleftrightarrow> \<not> pocChangesFirst rs"
    and idx: "\<forall>p t. indexedOffset (pocTypeStartList st1) p t = map_of (dataRecords 0 ls) (p, t)"
    by (simp_all add: scanInv_def z)
  have mode: "layoutMode s2 =
               (if \<forall>r \<in> set rs. r = hd rs then Unknown
                else if pocChangesFirst rs then Sequential else Interleaved)"
    using fixed sorted f sf by (auto simp: layoutMode_def)
  from r r2 run err mode sorted idx f show ?thesis by (intro exI [of _ s2]) simp
qed

theorem first_offsets_indexed_witness:
  "\<exists>s'. scanChunks 16 neverCancel (fileOfLines headedLines) 0 (freshItem, scanLocals0)
            = Some (Ok s')
     \<and> readFrameAndTypePositionsFromFile 16 neverCancel (Some (fileOfLines headedLines)) freshItem
         = Some (Ok ((fst s') \<lparr> startEndFrame := (0, maxPOC (fst s')),
                                chartStatSource := statSource (fst s') \<rparr>))
     \<and> parsingError (fst s') = parsingError freshItem
     \<and> layoutMode s' = Sequential
     \<and> \<not> fileSortedByPOC (fst s')
     \<and> indexedOffset (pocTypeStartList (fst s')) 0 1 = Some 18
     \<and> indexedOffset (pocTypeStartList (fst s')) 1 1 = Some 32
     \<and> indexedOffset (pocTypeStartList (fst s')) 0 2 = Some 46
     \<and> indexedOffset (pocTypeStartList (fst s')) 1 2 = None"
proof -
  let ?rs = "[(0, 1), (1, 1), (0, 2)] :: (int \<times> int) list"
  have h1: "0 < (16::nat)" by simp
  have h2: "\<forall>k. \<not> neverCancel k" by (simp add: neverCancel_def)
  have h3: "\<forall>l \<in> set headedLines. skippedLine l \<or> dataLine l \<and> 0 \<le> fst (recordOf l)"
    by code_simp
  have h4: "?rs = map fst (dataRecords 0 headedLines)" by code_simp
  have h5: "distinct (remdups_adj ?rs)" by code_simp
  have p: "pocChangesFirst ?rs" by code_simp
  then have h6: "pocChangesFirst ?rs \<or> distinct (remdups_adj (map fst ?rs))" by simp
  have h7: "pocTypeStartList freshItem = []" "\<not> fileSortedByPOC freshItem" by code_simp+
  have m: "(if \<forall>r \<in> set ?rs. r = hd ?rs then Unknown
            else if pocChangesFirst ?rs then Sequential else Interleaved) = Sequential"
    using p by simp
  have e: "map_of (dataRecords 0 headedLines) (0, 1) = Some 18"
    "map_of (dataRecords 0 headedLines) (1, 1) = Some 32"
    "map_of (dataRecords 0 headedLines) (0, 2) = Some 46"
    "map_of (dataRecords 0 headedLines) (1, 2) = None"
    by code_simp+
  from first_offsets_indexed [OF h1 h2 h3 h4 h5 h6 h7] obtain s'
    where "scanChunks 16 neverCancel (fileOfLines headedLines) 0 (freshItem, scanLocals0)
             = Some (Ok s')"
      and "readFrameAndTypePositionsFromFile 16 neverCancel (Some (fileOfLines headedLines))
             freshItem
           = Some (Ok ((fst s') \<lparr> startEndFrame := (0, maxPOC (fst s')),
                                  chartStatSource := statSource (fst s') \<rparr>))"
      and "parsingError (fst s') = parsingError freshItem"
      and "layoutMode s' = Sequential"
      and "fileSortedByPOC (fst s') \<longleftrightarrow> \<not> pocChangesFirst ?rs"
      and "\<forall>p t. indexedOffset (pocTypeStartList (fst s')) p t
                   = map_of (dataRecords 0 headedLines) (p, t)"
    unfolding m by blast
  with p e show ?thesis by (intro exI [of _ s']) simp
qed

text \<open>
  A body of two lines with the POC 0 and the typeIDs 1 and 2: no pair, no POC and no
  typeID comes back after another one, and the scan with the buffer size of the source
  holds the file to be interleaved.
\<close>

theorem same_poc_types_read_as_interleaved:
  "distinct (remdups_adj (map recordOf twoTypeLines))
   \<and> distinct (remdups_adj (map fst (map recordOf twoTypeLines)))
   \<and> distinct (remdups_adj (map snd (map recordOf twoTypeLines)))
   \<and> readFrameAndTypePositionsFromFile STAT_PARSING_BUFFER_SIZE neverCancel
         (Some (fileOfLines twoTypeLines)) freshItem =
       Some (Ok (freshItem \<lparr> fileSortedByPOC := True,
                   pocTypeStartList := [(0, [(1, 0), (2, 14)])] \<rparr>))"
proof -
  let ?st' = "freshItem \<lparr> fileSortedByPOC := True, pocTypeStartList := [(0, [(1, 0), (2, 14)])] \<rparr>"
  let ?loc' = "scanLocals0 \<lparr> lineBufferStartPos := 28, lastPOC := 0, lastType := 2,
                 sortingFixed := True \<rparr>"
  have d: "distinct (remdups_adj (map recordOf twoTypeLines))"
    "distinct (remdups_adj (map fst (map recordOf twoTypeLines)))"
    "distinct (remdups_adj (map snd (map recordOf twoTypeLines)))"
    by code_simp+
  have b: "0 < STAT_PARSING_BUFFER_SIZE" by (simp add: STAT_PARSING_BUFFER_SIZE_def)
  have c: "\<forall>k. \<not> neverCancel k" by (simp add: neverCancel_def)
  have s: "scanBuffer 0 (fileOfLines twoTypeLines) (freshItem, scanLocals0) = Ok (?st', ?loc')"
    by code_simp
  have e: "?st' \<lparr> startEndFrame := (0, maxPOC ?st'), chartStatSource := statSource ?st' \<rparr> = ?st'"
    by code_simp
  from read_to_end [OF b c s] d e show ?thesis by simp
qed

text \<open>
  The newline counts: a last line that no newline ends is never handed to the indexer.
  Of two data lines, the second without a newline, only the first is indexed, and no
  error is raised.
\<close>

lemma unterminated_line_not_indexed:
  "readFrameAndTypePositionsFromFile 16 neverCancel
     (Some (''0;0;0;8;8;1;5'' @ [CHR 0x0A] @ ''1;0;0;8;8;1;9'')) freshItem =
     Some (Ok (freshItem \<lparr> pocTypeStartList := [(0, [(1, 0)])] \<rparr>))"
proof -
  let ?st' = "freshItem \<lparr> pocTypeStartList := [(0, [(1, 0)])] \<rparr>"
  let ?loc' = "scanLocals0 \<lparr> lineBuffer := ''1;0;0;8;8;1;9'', lineBufferStartPos := 14,
                 lastPOC := 0, lastType := 1 \<rparr>"
  have b: "0 < (16::nat)" by simp
  have c: "\<forall>k. \<not> neverCancel k" by (simp add: neverCancel_def)
  have s: "scanBuffer 0 (''0;0;0;8;8;1;5'' @ [CHR 0x0A] @ ''1;0;0;8;8;1;9'')
             (freshItem, scanLocals0) = Ok (?st', ?loc')"
    by code_simp
  have e: "?st' \<lparr> startEndFrame := (0, maxPOC ?st'), chartStatSource := statSource ?st' \<rparr> = ?st'"
    by code_simp
  from read_to_end [OF b c s] e show ?thesis by simp
qed

end
